theory Spec2Isabelle
  imports Complex_Main "HOL-Library.AList" "HOL-Library.Sublist"
begin

section \<open>Data model of the automation engine\<close>

text \<open>
  The engine is the class \<open>AutomationEngine\<close>. Its records are given here field by
  field as the interface \<open>AutomationRule\<close> declares them. A field the interface marks
  optional (\<open>?\<close>) is an \<open>option\<close>; \<open>None\<close> is JavaScript's \<open>undefined\<close>.
  JavaScript numbers are modelled by the real number a finite double denotes
  (comparisons of finite doubles agree with those of the reals they denote);
  \<open>NaN\<close> only arises from \<open>parseFloat\<close> and is the \<open>None\<close> of its result.
  Strings are texts in UTF-8, one \<open>char\<close> per byte (on well-formed texts the
  substring relation is the same as on JavaScript's code units); the builtin
  \<open>toLowerCase\<close> is a parameter of the environment.
  Timestamps (\<open>new Date().toISOString()\<close>) are modelled by the instant they denote,
  a natural number of milliseconds.
\<close>

type_synonym timestamp = nat

record trigger =
  trigger_type :: string
  cron :: "string option"
  metric :: "string option"
  operator :: "string option"
  threshold_value :: "real option"
  checkInterval :: "real option"

record conditions =
  campaignStatus :: "string option"
  campaignNameContains :: "string option"
  minSpend :: "real option"
  maxSpend :: "real option"

record action =
  action_type :: string
  budgetChange :: "real option"
  notifyMessage :: "string option"

record AutomationRule =
  rule_id :: string
  rule_name :: string
  accountId :: string
  enabled :: bool
  trigger :: trigger
  conditions :: conditions
  actions :: "action list"
  createdAt :: timestamp
  lastRunAt :: "timestamp option"

text \<open>
  A campaign as the Campaign Data Client returns it (typed \<open>any\<close> in the source). The
  source reads \<open>id\<close>, \<open>name\<close> (guarded by \<open>?.\<close>) and \<open>status\<close>; \<open>campaign_spend\<close>
  stands for a spend figure a campaign object may carry, which the source never reads.
\<close>

record campaign =
  campaign_id :: string
  campaign_name :: "string option"
  campaign_status :: string
  campaign_spend :: "real option"

text \<open>One insights row: field name to the raw (string) value the API reports.\<close>

type_synonym insight = "(string \<times> string) list"

datatype error = UpstreamError | PersistenceError | ConfigurationError

text \<open>A call either returns a value or throws.\<close>

datatype 'a completion = Returns 'a | Throws error

text \<open>
  Observable effects, in the order they happen: a successful status change of a campaign,
  an alert handed to the Slack notifier (type, title, message), and a \<open>console.error\<close>
  (identified by the ASCII text of its message prefix).
\<close>

datatype event =
    Updated string string
  | Alerted string string string
  | ErrorLogged string

text \<open>
  The contents of the file \<open>data/automations.json\<close>: no file; a file that cannot be
  read or parsed as an array; an array of rules; or an array that starts with rules and
  then has an element on which reading \<open>id\<close> throws (\<open>null\<close>), so that the loop of
  \<open>loadRules\<close> stops there.
\<close>

datatype store_file =
    Missing
  | Corrupt
  | Stored "AutomationRule list"
  | Damaged "AutomationRule list"

text \<open>
  A live timer of the runtime: a node-cron task (rule id, cron expression) or a
  \<open>setInterval\<close> timer (rule id, period in milliseconds). Both fire \<open>executeRule\<close> on
  the rule they were created for.
\<close>

datatype job = CronTask string string | IntervalTimer string real

fun jobRule :: "job \<Rightarrow> string" where
  "jobRule (CronTask r c) = r"
| "jobRule (IntervalTimer r ms) = r"

text \<open>
  The engine's fields. \<open>rules\<close>, \<open>cronJobs\<close> and \<open>intervalJobs\<close> are JavaScript
  \<open>Map\<close>s: association lists in insertion order with \<open>AList.update\<close> for \<open>set\<close>
  (an existing key keeps its place, a new one goes last) and \<open>AList.delete\<close> for
  \<open>delete\<close>. The job maps hold timer handles; \<open>timers\<close> is the runtime's table of
  live timers by handle and \<open>nextHandle\<close> the next handle the runtime hands out.
  \<open>slackNotifier\<close> tells whether a notifier was given to the constructor.
\<close>

record engine =
  rules :: "(string \<times> AutomationRule) list"
  cronJobs :: "(string \<times> nat) list"
  intervalJobs :: "(string \<times> nat) list"
  timers :: "(nat \<times> job) list"
  nextHandle :: nat
  slackNotifier :: bool
  disk :: store_file
  trace :: "event list"

text \<open>
  The collaborators the engine calls: the Meta client, node-cron's \<open>schedule\<close> (which
  throws on an expression it rejects), the file system write, and the builtins
  \<open>parseFloat\<close> (\<open>None\<close> is \<open>NaN\<close>) and \<open>String.prototype.toLowerCase\<close>.
\<close>

record env =
  getCampaigns :: "string \<Rightarrow> campaign list completion"
  getInsights :: "string \<Rightarrow> string \<Rightarrow> insight list completion"
  updateCampaign :: "string \<Rightarrow> string \<Rightarrow> unit completion"
  cron_schedule :: "string \<Rightarrow> unit completion"
  writeFileSync :: "AutomationRule list \<Rightarrow> unit completion"
  parseFloat :: "string \<Rightarrow> real option"
  toLowerCase :: "string \<Rightarrow> string"

section \<open>JavaScript helpers\<close>

text \<open>Truthiness of an optional string and of an optional number.\<close>

fun truthy_string :: "string option \<Rightarrow> bool" where
  "truthy_string None = False"
| "truthy_string (Some s) = (s \<noteq> [])"

fun truthy_number :: "real option \<Rightarrow> bool" where
  "truthy_number None = False"
| "truthy_number (Some x) = (x \<noteq> 0)"

text \<open>
  What \<open>toLowerCase\<close> does on ASCII text, for the environments of the examples: a
  capital (codes 65 to 90) becomes its small letter, 32 higher (the capitals have bit 5
  clear, so adding 32 sets that bit), and every other ASCII character stays.
\<close>

definition lower_char :: "char \<Rightarrow> char" where
  "lower_char c =
     (if 65 \<le> (of_char c :: nat) \<and> (of_char c :: nat) \<le> 90
      then (case c of Char b0 b1 b2 b3 b4 b5 b6 b7 \<Rightarrow> Char b0 b1 b2 b3 b4 True b6 b7)
      else c)"

definition asciiLowerCase :: "string \<Rightarrow> string" where
  "asciiLowerCase s = map lower_char s"

text \<open>\<open>hay.includes(needle)\<close>: the needle occurs as a contiguous substring.\<close>

fun includes_str :: "string \<Rightarrow> string \<Rightarrow> bool" where
  "includes_str [] needle = (needle = [])"
| "includes_str (h # hay) needle = (prefix needle (h # hay) \<or> includes_str hay needle)"

section \<open>The static conditions filter\<close>

text \<open>The callback of \<open>campaigns.filter\<close> in \<open>executeRule\<close>.\<close>

definition matchesConditions :: "env \<Rightarrow> AutomationRule \<Rightarrow> campaign \<Rightarrow> bool" where
  "matchesConditions e rule c =
     (if truthy_string (campaignStatus (conditions rule))
         \<and> campaignStatus (conditions rule) \<noteq> Some ''ANY''
         \<and> Some (campaign_status c) \<noteq> campaignStatus (conditions rule)
      then False
      else if (case campaignNameContains (conditions rule) of
                 None \<Rightarrow> False
               | Some sub \<Rightarrow> sub \<noteq> [] \<and>
                   \<not> (case campaign_name c of
                        None \<Rightarrow> False
                      | Some n \<Rightarrow> includes_str (toLowerCase e n) (toLowerCase e sub)))
      then False
      else True)"

text \<open>
  The filter as the specification words it, for comparison: status, name and spend
  bounds all constrain the campaign.
\<close>

definition spec_conditions_pass :: "env \<Rightarrow> AutomationRule \<Rightarrow> campaign \<Rightarrow> bool" where
  "spec_conditions_pass e rule c =
     ((case campaignStatus (conditions rule) of
         None \<Rightarrow> True
       | Some st \<Rightarrow> st = ''ANY'' \<or> campaign_status c = st)
      \<and> (case campaignNameContains (conditions rule) of
         None \<Rightarrow> True
       | Some sub \<Rightarrow> (case campaign_name c of
            None \<Rightarrow> False
          | Some n \<Rightarrow> sublist (toLowerCase e sub) (toLowerCase e n)))
      \<and> (case minSpend (conditions rule) of
         None \<Rightarrow> True
       | Some lo \<Rightarrow> (case campaign_spend c of None \<Rightarrow> False | Some x \<Rightarrow> lo \<le> x))
      \<and> (case maxSpend (conditions rule) of
         None \<Rightarrow> True
       | Some hi \<Rightarrow> (case campaign_spend c of None \<Rightarrow> False | Some x \<Rightarrow> x \<le> hi)))"

section \<open>Threshold comparison\<close>

definition checkThreshold :: "real \<Rightarrow> string \<Rightarrow> real \<Rightarrow> bool" where
  "checkThreshold v op threshold =
     (if op = ''gt'' then v > threshold
      else if op = ''lt'' then v < threshold
      else if op = ''eq'' then v = threshold
      else False)"

text \<open>
  \<open>parseFloat(insights[0][metric]) || 0\<close>: an absent field is \<open>undefined\<close>, which
  \<open>parseFloat\<close> turns into \<open>NaN\<close>; \<open>NaN\<close> and \<open>0\<close> are falsy, so both give \<open>0\<close>.
\<close>

definition metricValue :: "env \<Rightarrow> insight \<Rightarrow> string \<Rightarrow> real" where
  "metricValue e row m =
     (case map_of row m of
        None \<Rightarrow> 0
      | Some raw \<Rightarrow> (case parseFloat e raw of None \<Rightarrow> 0 | Some x \<Rightarrow> x))"

section \<open>Sequencing with exceptions\<close>

text \<open>
  A call runs in the engine's state and either returns or throws; the state it
  leaves behind is kept in both cases. \<open>andThen\<close> is \<open>;\<close>: the second statement
  runs only if the first returned. Calls run one at a time: an \<open>async\<close> function is
  modelled by the sequence of its steps with every \<open>await\<close> completed in place, so
  interleavings of concurrent fires are outside this model.
\<close>

type_synonym 'a call = "engine \<Rightarrow> 'a completion \<times> engine"

definition andThen :: "'a completion \<times> engine \<Rightarrow> ('a \<Rightarrow> 'b call) \<Rightarrow> 'b completion \<times> engine" where
  "andThen m f = (case m of (Throws err, s) \<Rightarrow> (Throws err, s) | (Returns x, s) \<Rightarrow> f x s)"

definition logError :: "string \<Rightarrow> engine \<Rightarrow> engine" where
  "logError msg s = s\<lparr>trace := trace s @ [ErrorLogged msg]\<rparr>"

section \<open>Persistence\<close>

text \<open>
  \<open>saveRules\<close>: the directory check and the write are inside \<open>try\<close>; the \<open>catch\<close>
  logs and returns. \<open>writeFileSync\<close> of the environment stands for that whole
  guarded block.
\<close>

definition saveRules :: "env \<Rightarrow> unit call" where
  "saveRules e s =
     (case writeFileSync e (map snd (rules s)) of
        Throws err \<Rightarrow> (Returns (), logError ''Error saving automation rules:'' s)
      | Returns u \<Rightarrow> (Returns (), s\<lparr>disk := Stored (map snd (rules s))\<rparr>))"

definition loadRules :: "engine \<Rightarrow> engine" where
  "loadRules s =
     (case disk s of
        Missing \<Rightarrow> s
      | Corrupt \<Rightarrow> logError ''Error loading automation rules:'' s
      | Stored rs \<Rightarrow> s\<lparr>rules := fold (\<lambda>r al. AList.update (rule_id r) r al) rs (rules s)\<rparr>
      | Damaged rs \<Rightarrow>
          logError ''Error loading automation rules:''
            (s\<lparr>rules := fold (\<lambda>r al. AList.update (rule_id r) r al) rs (rules s)\<rparr>))"

section \<open>Scheduler\<close>

definition stopTimer :: "nat \<Rightarrow> (nat \<times> job) list \<Rightarrow> (nat \<times> job) list" where
  "stopTimer h ts = filter (\<lambda>t. fst t \<noteq> h) ts"

definition unscheduleRule :: "string \<Rightarrow> engine \<Rightarrow> engine" where
  "unscheduleRule ruleId s =
     (let s1 = (case map_of (cronJobs s) ruleId of
                  None \<Rightarrow> s
                | Some h \<Rightarrow> s\<lparr>timers := stopTimer h (timers s),
                              cronJobs := AList.delete ruleId (cronJobs s)\<rparr>)
      in (case map_of (intervalJobs s1) ruleId of
            None \<Rightarrow> s1
          | Some h \<Rightarrow> s1\<lparr>timers := stopTimer h (timers s1),
                         intervalJobs := AList.delete ruleId (intervalJobs s1)\<rparr>))"

text \<open>
  The period Node gives a \<open>setInterval\<close> timer: a delay below 1 or above
  \<open>2^31 - 1\<close> becomes 1, and a delay is cut to whole milliseconds.
\<close>

definition timerDelay :: "real \<Rightarrow> real" where
  "timerDelay ms = (if 1 \<le> ms \<and> ms \<le> 2147483647 then of_int \<lfloor>ms\<rfloor> else 1)"

text \<open>
  \<open>scheduleRule\<close>. In the two inner \<open>case\<close>s the \<open>None\<close> branch is excluded by the
  truthiness test of the enclosing \<open>if\<close>.
\<close>

definition scheduleRule :: "env \<Rightarrow> AutomationRule \<Rightarrow> unit call" where
  "scheduleRule e rule s =
     (let s1 = unscheduleRule (rule_id rule) s in
      if \<not> enabled rule then (Returns (), s1)
      else if trigger_type (trigger rule) = ''schedule'' \<and> truthy_string (cron (trigger rule)) then
        (case cron (trigger rule) of
           None \<Rightarrow> (Returns (), s1)
         | Some c \<Rightarrow>
            (case cron_schedule e c of
               Throws err \<Rightarrow> (Returns (), logError ''Error scheduling rule'' s1)
             | Returns u \<Rightarrow>
                 (Returns (),
                  s1\<lparr>timers := timers s1 @ [(nextHandle s1, CronTask (rule_id rule) c)],
                     cronJobs := AList.update (rule_id rule) (nextHandle s1) (cronJobs s1),
                     nextHandle := Suc (nextHandle s1)\<rparr>)))
      else if trigger_type (trigger rule) = ''threshold''
              \<and> truthy_number (checkInterval (trigger rule)) then
        (case checkInterval (trigger rule) of
           None \<Rightarrow> (Returns (), s1)
         | Some ci \<Rightarrow>
            (Returns (),
             s1\<lparr>timers := timers s1 @
                  [(nextHandle s1, IntervalTimer (rule_id rule) (timerDelay (ci * 60 * 1000)))],
                intervalJobs := AList.update (rule_id rule) (nextHandle s1) (intervalJobs s1),
                nextHandle := Suc (nextHandle s1)\<rparr>))
      else (Returns (), s1))"

fun scheduleEach :: "env \<Rightarrow> AutomationRule list \<Rightarrow> unit call" where
  "scheduleEach e [] s = (Returns (), s)"
| "scheduleEach e (rule # rs) s =
     andThen (if enabled rule then scheduleRule e rule s else (Returns (), s))
       (\<lambda>u. scheduleEach e rs)"

definition scheduleAllRules :: "env \<Rightarrow> unit call" where
  "scheduleAllRules e s = scheduleEach e (map snd (rules s)) s"

definition start :: "env \<Rightarrow> unit call" where
  "start e s = scheduleAllRules e (loadRules s)"

definition stop :: "unit call" where
  "stop s =
     (Returns (),
      s\<lparr>timers := filter (\<lambda>t. fst t \<notin> snd ` set (cronJobs s) \<and> fst t \<notin> snd ` set (intervalJobs s))
                    (timers s),
        cronJobs := [],
        intervalJobs := []\<rparr>)"

text \<open>The engine as the constructor leaves it.\<close>

definition newEngine :: "bool \<Rightarrow> store_file \<Rightarrow> engine" where
  "newEngine slack stored =
     \<lparr>rules = [], cronJobs = [], intervalJobs = [], timers = [], nextHandle = 0,
      slackNotifier = slack, disk = stored, trace = []\<rparr>"

text \<open>The number of live timers that fire a given rule.\<close>

definition liveJobs :: "engine \<Rightarrow> string \<Rightarrow> nat" where
  "liveJobs s ruleId = length (filter (\<lambda>t. jobRule (snd t) = ruleId) (timers s))"

section \<open>Rule evaluation\<close>

text \<open>
  \<open>checkThreshold(metricValue, rule.trigger.operator!, rule.trigger.value!)\<close>: an
  \<open>undefined\<close> operator falls to the \<open>default\<close> of the \<open>switch\<close>, and every
  comparison with an \<open>undefined\<close> threshold is false.
\<close>

definition thresholdMet :: "env \<Rightarrow> AutomationRule \<Rightarrow> string \<Rightarrow> insight \<Rightarrow> bool" where
  "thresholdMet e rule m row =
     (case operator (trigger rule) of
        None \<Rightarrow> False
      | Some op \<Rightarrow>
         (case threshold_value (trigger rule) of
            None \<Rightarrow> False
          | Some v \<Rightarrow> checkThreshold (metricValue e row m) op v))"

text \<open>
  The loop over \<open>matchingCampaigns\<close> of a threshold rule, for the metric \<open>m\<close>. It
  returns \<open>triggeredCampaigns\<close>. A throwing insights call is caught and logged inside
  the loop body.
\<close>

fun thresholdLoop :: "env \<Rightarrow> AutomationRule \<Rightarrow> string \<Rightarrow> campaign list \<Rightarrow> engine
    \<Rightarrow> campaign list \<times> engine" where
  "thresholdLoop e rule m [] s = ([], s)"
| "thresholdLoop e rule m (c # cs) s =
     (case getInsights e (campaign_id c) m of
        Throws err \<Rightarrow> thresholdLoop e rule m cs (logError ''Error checking insights for campaign'' s)
      | Returns [] \<Rightarrow> thresholdLoop e rule m cs s
      | Returns (row # others) \<Rightarrow>
          (if thresholdMet e rule m row
           then (case thresholdLoop e rule m cs s of (tr, s') \<Rightarrow> (c # tr, s'))
           else thresholdLoop e rule m cs s))"

text \<open>
  What one pass of the loop body decides about a campaign (used to state the loop's
  result): the campaign is pushed iff the insights call returned at least one row and
  the first row meets the threshold.
\<close>

definition metricTriggers :: "env \<Rightarrow> AutomationRule \<Rightarrow> string \<Rightarrow> campaign \<Rightarrow> bool" where
  "metricTriggers e rule m c =
     (case getInsights e (campaign_id c) m of
        Throws err \<Rightarrow> False
      | Returns [] \<Rightarrow> False
      | Returns (row # others) \<Rightarrow> thresholdMet e rule m row)"

definition triggeredCampaigns :: "env \<Rightarrow> AutomationRule \<Rightarrow> campaign list \<Rightarrow> engine
    \<Rightarrow> campaign list \<times> engine" where
  "triggeredCampaigns e rule matching s =
     (if trigger_type (trigger rule) = ''threshold'' \<and> truthy_string (metric (trigger rule)) then
        (case metric (trigger rule) of
           None \<Rightarrow> (matching, s)
         | Some m \<Rightarrow> thresholdLoop e rule m matching s)
      else (matching, s))"

section \<open>Action execution\<close>

text \<open>
  \<open>campaign.name\<close> inside a template literal or as a replacement string:
  \<open>undefined\<close> prints as the word.
\<close>

definition campaignNameText :: "campaign \<Rightarrow> string" where
  "campaignNameText c = (case campaign_name c of None \<Rightarrow> ''undefined'' | Some n \<Rightarrow> n)"

text \<open>
  The replacement text of \<open>String.prototype.replace\<close> is expanded: \<open>$$\<close> is a
  dollar sign, \<open>$&\<close> the matched text, \<open>$\<close> with a backquote the text before the
  match and \<open>$\<close> with a quote the text after it. A string pattern has no groups, so
  every other \<open>$\<close> stays as it is.
\<close>

fun substitution :: "string \<Rightarrow> string \<Rightarrow> string \<Rightarrow> string \<Rightarrow> string" where
  "substitution matched before after [] = []"
| "substitution matched before after [c] = [c]"
| "substitution matched before after (c # d # rest) =
     (if c = CHR 0x24 then
        (if d = CHR 0x24 then CHR 0x24 # substitution matched before after rest
         else if d = CHR 0x26 then matched @ substitution matched before after rest
         else if d = CHR 0x60 then before @ substitution matched before after rest
         else if d = CHR 0x27 then after @ substitution matched before after rest
         else c # substitution matched before after (d # rest))
      else c # substitution matched before after (d # rest))"

text \<open>
  \<open>text.replace(pat, rep)\<close> with a string pattern replaces the first occurrence
  only; \<open>before\<close> is the text already passed.
\<close>

fun replace_from :: "string \<Rightarrow> string \<Rightarrow> string \<Rightarrow> string \<Rightarrow> string" where
  "replace_from before pat rep [] = (if pat = [] then substitution [] before [] rep else [])"
| "replace_from before pat rep (x # xs) =
     (if prefix pat (x # xs)
      then substitution pat before (drop (length pat) (x # xs)) rep @ drop (length pat) (x # xs)
      else x # replace_from (before @ [x]) pat rep xs)"

definition replace_first :: "string \<Rightarrow> string \<Rightarrow> string \<Rightarrow> string" where
  "replace_first pat rep t = replace_from [] pat rep t"

definition quoted :: "string \<Rightarrow> string" where
  "quoted t = [CHR 0x22] @ t @ [CHR 0x22]"

definition sendAlert :: "string \<Rightarrow> string \<Rightarrow> string \<Rightarrow> engine \<Rightarrow> engine" where
  "sendAlert kind title message s = s\<lparr>trace := trace s @ [Alerted kind title message]\<rparr>"

definition notifyText :: "action \<Rightarrow> campaign \<Rightarrow> string" where
  "notifyText a c =
     (case notifyMessage a of
        None \<Rightarrow> ''Alert triggered for campaign '' @ quoted (campaignNameText c)
      | Some t \<Rightarrow>
         (if replace_first ''{campaign_name}'' (campaignNameText c) t = []
          then ''Alert triggered for campaign '' @ quoted (campaignNameText c)
          else replace_first ''{campaign_name}'' (campaignNameText c) t))"

text \<open>
  \<open>executeAction\<close>. An exception of \<open>updateCampaign\<close> is not caught here. The notifier
  catches its own transport failures, so \<open>sendAlert\<close> always returns. The
  \<open>adjustBudget\<close> case only prints a notice, and the \<open>switch\<close> has no default.
\<close>

definition executeAction :: "env \<Rightarrow> action \<Rightarrow> campaign \<Rightarrow> AutomationRule \<Rightarrow> unit call" where
  "executeAction e a c rule s =
     (if action_type a = ''pause'' then
        (case updateCampaign e (campaign_id c) ''PAUSED'' of
           Throws err \<Rightarrow> (Throws err, s)
         | Returns u \<Rightarrow>
            (let s1 = s\<lparr>trace := trace s @ [Updated (campaign_id c) ''PAUSED'']\<rparr> in
             (Returns (),
              if slackNotifier s1
              then sendAlert ''action'' ''Campaign Auto-Paused''
                     (''Rule '' @ quoted (rule_name rule) @ '' paused campaign ''
                        @ quoted (campaignNameText c)) s1
              else s1)))
      else if action_type a = ''resume'' then
        (case updateCampaign e (campaign_id c) ''ACTIVE'' of
           Throws err \<Rightarrow> (Throws err, s)
         | Returns u \<Rightarrow>
            (let s1 = s\<lparr>trace := trace s @ [Updated (campaign_id c) ''ACTIVE'']\<rparr> in
             (Returns (),
              if slackNotifier s1
              then sendAlert ''action'' ''Campaign Auto-Resumed''
                     (''Rule '' @ quoted (rule_name rule) @ '' resumed campaign ''
                        @ quoted (campaignNameText c)) s1
              else s1)))
      else if action_type a = ''notify'' then
        (Returns (),
         if slackNotifier s then sendAlert ''alert'' (rule_name rule) (notifyText a c) s else s)
      else if action_type a = ''adjustBudget'' then (Returns (), s)
      else (Returns (), s))"

text \<open>The two nested \<open>for\<close> loops of \<open>executeRule\<close>.\<close>

fun actionLoop :: "env \<Rightarrow> AutomationRule \<Rightarrow> campaign \<Rightarrow> action list \<Rightarrow> unit call" where
  "actionLoop e rule c [] s = (Returns (), s)"
| "actionLoop e rule c (a # as) s =
     andThen (executeAction e a c rule s) (\<lambda>u. actionLoop e rule c as)"

fun campaignLoop :: "env \<Rightarrow> AutomationRule \<Rightarrow> campaign list \<Rightarrow> unit call" where
  "campaignLoop e rule [] s = (Returns (), s)"
| "campaignLoop e rule (c # cs) s =
     andThen (actionLoop e rule c (actions rule) s) (\<lambda>u. campaignLoop e rule cs)"

text \<open>
  \<open>executeRule\<close>: everything is inside one \<open>try\<close>; its \<open>catch\<close> logs and returns. On the
  normal path the rule gets the current time as \<open>lastRunAt\<close>, is stored in the map and
  the map is saved.
\<close>

definition executeRule :: "env \<Rightarrow> timestamp \<Rightarrow> AutomationRule \<Rightarrow> unit call" where
  "executeRule e now rule s =
     (case getCampaigns e (accountId rule) of
        Throws err \<Rightarrow> (Returns (), logError ''Error executing rule'' s)
      | Returns campaigns \<Rightarrow>
         (case triggeredCampaigns e rule (filter (matchesConditions e rule) campaigns) s of
            (triggered, s1) \<Rightarrow>
              (case campaignLoop e rule triggered s1 of
                 (Throws err, s2) \<Rightarrow> (Returns (), logError ''Error executing rule'' s2)
               | (Returns u, s2) \<Rightarrow>
                   saveRules e
                     (s2\<lparr>rules := AList.update (rule_id rule) (rule\<lparr>lastRunAt := Some now\<rparr>)
                                    (rules s2)\<rparr>))))"

section \<open>Public API\<close>

text \<open>
  \<open>addRule\<close>: \<open>newId\<close> is the identifier the source builds from the clock and the
  random generator, \<open>now\<close> the time of creation.
\<close>

definition addRule :: "env \<Rightarrow> string \<Rightarrow> timestamp \<Rightarrow> AutomationRule \<Rightarrow> string call" where
  "addRule e newId now ruleData s =
     (let rule = ruleData\<lparr>rule_id := newId, createdAt := now\<rparr> in
      andThen (saveRules e (s\<lparr>rules := AList.update newId rule (rules s)\<rparr>))
        (\<lambda>u s2. andThen (if enabled rule then scheduleRule e rule s2 else (Returns (), s2))
           (\<lambda>u s3. (Returns newId, s3))))"

definition removeRule :: "env \<Rightarrow> string \<Rightarrow> unit call" where
  "removeRule e ruleId s =
     (let s1 = unscheduleRule ruleId s in
      saveRules e (s1\<lparr>rules := AList.delete ruleId (rules s1)\<rparr>))"

definition toggleRule :: "env \<Rightarrow> string \<Rightarrow> unit call" where
  "toggleRule e ruleId s =
     (case map_of (rules s) ruleId of
        None \<Rightarrow> (Returns (), s)
      | Some rule0 \<Rightarrow>
         (let rule = rule0\<lparr>enabled := \<not> enabled rule0\<rparr> in
          andThen (saveRules e (s\<lparr>rules := AList.update ruleId rule (rules s)\<rparr>))
            (\<lambda>u s2. if enabled rule then scheduleRule e rule s2
                     else (Returns (), unscheduleRule ruleId s2))))"

definition runRule :: "env \<Rightarrow> timestamp \<Rightarrow> string \<Rightarrow> unit call" where
  "runRule e now ruleId s =
     (case map_of (rules s) ruleId of
        None \<Rightarrow> (Returns (), s)
      | Some rule \<Rightarrow> executeRule e now rule s)"

definition getRulesForAccount :: "string \<Rightarrow> AutomationRule list call" where
  "getRulesForAccount account s =
     (Returns (filter (\<lambda>rule. accountId rule = account \<or> accountId rule = ''act_'' @ account)
                 (map snd (rules s))),
      s)"

definition getAllRules :: "AutomationRule list call" where
  "getAllRules s = (Returns (map snd (rules s)), s)"

section \<open>Scheduler consistency and reachable states\<close>

text \<open>
  A trigger for which \<open>scheduleRule\<close> registers a job when the rule is enabled: a
  schedule trigger with a non-empty expression that node-cron accepts, or a threshold
  trigger with a \<open>checkInterval\<close> other than \<open>0\<close>.
\<close>

definition schedulable :: "env \<Rightarrow> trigger \<Rightarrow> bool" where
  "schedulable e t =
     (if trigger_type t = ''schedule'' \<and> truthy_string (cron t)
      then (case cron t of None \<Rightarrow> False | Some c \<Rightarrow> cron_schedule e c = Returns ())
      else trigger_type t = ''threshold'' \<and> truthy_number (checkInterval t))"

text \<open>
  Consistency of the job maps with the runtime's timer table: handles are unique and
  below \<open>nextHandle\<close>, every live timer is the one its rule id is mapped to in one of the
  two job maps, and no rule id is in both maps.
\<close>

definition timer_inv :: "engine \<Rightarrow> bool" where
  "timer_inv s \<longleftrightarrow>
     distinct (map fst (timers s))
     \<and> (\<forall>t \<in> set (timers s). fst t < nextHandle s)
     \<and> (\<forall>t \<in> set (timers s).
           map_of (cronJobs s) (jobRule (snd t)) = Some (fst t)
           \<or> map_of (intervalJobs s) (jobRule (snd t)) = Some (fst t))
     \<and> fst ` set (cronJobs s) \<inter> fst ` set (intervalJobs s) = {}"

text \<open>
  Handles in the job maps: every registered handle was handed out before, and a handle
  is registered under one rule id only.
\<close>

definition handle_inv :: "engine \<Rightarrow> bool" where
  "handle_inv s \<longleftrightarrow>
     (\<forall>x \<in> set (cronJobs s) \<union> set (intervalJobs s). snd x < nextHandle s)
     \<and> (\<forall>x \<in> set (cronJobs s) \<union> set (intervalJobs s).
          \<forall>y \<in> set (cronJobs s) \<union> set (intervalJobs s). snd x = snd y \<longrightarrow> fst x = fst y)"

text \<open>
  Consistency with the rule map: keys are unique and are the ids of the rules stored
  under them, and every live timer belongs to a stored rule.
\<close>

definition rule_inv :: "engine \<Rightarrow> bool" where
  "rule_inv s \<longleftrightarrow>
     distinct (map fst (rules s))
     \<and> (\<forall>kr \<in> set (rules s). rule_id (snd kr) = fst kr)
     \<and> (\<forall>t \<in> set (timers s). map_of (rules s) (jobRule (snd t)) \<noteq> None)"

definition sched_inv :: "engine \<Rightarrow> bool" where
  "sched_inv s \<longleftrightarrow> timer_inv s \<and> handle_inv s \<and> rule_inv s"

text \<open>
  The scheduler is in step with the rules (for the cron validator of \<open>e0\<close>): every
  stored rule has exactly one live timer if it is enabled with a schedulable trigger,
  and none otherwise.
\<close>

definition in_step :: "env \<Rightarrow> engine \<Rightarrow> bool" where
  "in_step e0 s \<longleftrightarrow>
     (\<forall>kr \<in> set (rules s).
        liveJobs s (fst kr)
          = (if enabled (snd kr) \<and> schedulable e0 (trigger (snd kr)) then 1 else 0))"

text \<open>
  \<open>start\<close> schedules the enabled rules and leaves the others alone, so it brings the
  scheduler in step exactly if no rule that is disabled after loading the store has a
  live timer. This holds on the constructed engine and after \<open>stop\<close> (no timer is
  live), and on an engine in step whose store is current.
\<close>

definition load_safe :: "engine \<Rightarrow> bool" where
  "load_safe s \<longleftrightarrow>
     (\<forall>kr \<in> set (rules (loadRules s)). \<not> enabled (snd kr) \<longrightarrow> liveJobs s (fst kr) = 0)"

text \<open>
  The states the engine can be in at any time: constructed, and then any sequence of
  public calls (\<open>start\<close> and \<open>stop\<close> included, in any order and any number of times)
  and timer fires. A timer fires \<open>executeRule\<close> on the rule object it was created for.
  After a \<open>start\<close> or an \<open>addRule\<close> that put another object under the same id this
  need not be the object the map holds, so a fire runs any rule that has the id of the
  timer.
\<close>

inductive reachable :: "engine \<Rightarrow> bool" where
  created: "reachable (newEngine slack stored)"
| started: "reachable s \<Longrightarrow> reachable (snd (start e s))"
| added: "reachable s \<Longrightarrow> reachable (snd (addRule e newId now ruleData s))"
| removed: "reachable s \<Longrightarrow> reachable (snd (removeRule e ruleId s))"
| toggled: "reachable s \<Longrightarrow> reachable (snd (toggleRule e ruleId s))"
| ran: "reachable s \<Longrightarrow> reachable (snd (runRule e now ruleId s))"
| fired: "reachable s \<Longrightarrow> t \<in> set (timers s) \<Longrightarrow> rule_id rule = jobRule (snd t)
    \<Longrightarrow> reachable (snd (executeRule e now rule s))"
| stopped: "reachable s \<Longrightarrow> reachable (snd (stop s))"

text \<open>
  The running engine: \<open>start\<close> was called in a state where it brings the scheduler in
  step (\<open>load_safe\<close>), and since then rules were added (under ids not in use), removed,
  toggled, run and fired, with no \<open>stop\<close> and no \<open>start\<close> other than such a one.
  Here every live timer was created for the object the map holds (\<open>start\<close> and
  \<open>toggleRule\<close> schedule the objects of the map, \<open>addRule\<close> the one it stores), so a
  fire is \<open>runRule\<close> on the id of the timer.
  node-cron's verdict on an expression is a fixed function: every environment of the run
  has the cron validator of \<open>e0\<close>.
\<close>

inductive running :: "env \<Rightarrow> engine \<Rightarrow> bool" for e0 :: env where
  started: "reachable s \<Longrightarrow> load_safe s \<Longrightarrow> cron_schedule e = cron_schedule e0
    \<Longrightarrow> running e0 (snd (start e s))"
| added: "running e0 s \<Longrightarrow> cron_schedule e = cron_schedule e0 \<Longrightarrow> map_of (rules s) newId = None
    \<Longrightarrow> running e0 (snd (addRule e newId now ruleData s))"
| removed: "running e0 s \<Longrightarrow> running e0 (snd (removeRule e ruleId s))"
| toggled: "running e0 s \<Longrightarrow> cron_schedule e = cron_schedule e0
    \<Longrightarrow> running e0 (snd (toggleRule e ruleId s))"
| ran: "running e0 s \<Longrightarrow> running e0 (snd (runRule e now ruleId s))"
| fired: "running e0 s \<Longrightarrow> t \<in> set (timers s)
    \<Longrightarrow> running e0 (snd (runRule e now (jobRule (snd t)) s))"

section \<open>Concrete inputs\<close>

definition ex_threshold :: trigger where
  "ex_threshold =
     \<lparr>trigger_type = ''threshold'', cron = None, metric = Some ''spend'',
      operator = Some ''gt'', threshold_value = Some 100, checkInterval = Some 5\<rparr>"

definition ex_schedule :: trigger where
  "ex_schedule =
     \<lparr>trigger_type = ''schedule'', cron = Some ''0 9 * * *'', metric = None,
      operator = None, threshold_value = None, checkInterval = None\<rparr>"

definition ex_conditions :: conditions where
  "ex_conditions =
     \<lparr>campaignStatus = Some ''ACTIVE'', campaignNameContains = Some ''Promo'',
      minSpend = None, maxSpend = None\<rparr>"

definition ex_pause :: action where
  "ex_pause = \<lparr>action_type = ''pause'', budgetChange = None, notifyMessage = None\<rparr>"

definition ex_notify :: action where
  "ex_notify =
     \<lparr>action_type = ''notify'', budgetChange = None,
      notifyMessage = Some ''Check {campaign_name}''\<rparr>"

definition ex_rule :: AutomationRule where
  "ex_rule =
     \<lparr>rule_id = ''r1'', rule_name = ''Spend guard'', accountId = ''act_1'', enabled = True,
      trigger = ex_threshold, conditions = ex_conditions, actions = [ex_pause, ex_notify],
      createdAt = 0, lastRunAt = None\<rparr>"

definition ex_c1 :: campaign where
  "ex_c1 =
     \<lparr>campaign_id = ''c1'', campaign_name = Some ''Summer promo sale'',
      campaign_status = ''ACTIVE'', campaign_spend = Some 5\<rparr>"

definition ex_c2 :: campaign where
  "ex_c2 =
     \<lparr>campaign_id = ''c2'', campaign_name = Some ''Winter Promo'',
      campaign_status = ''ACTIVE'', campaign_spend = Some 500\<rparr>"

definition ex_c3 :: campaign where
  "ex_c3 =
     \<lparr>campaign_id = ''c3'', campaign_name = Some ''Promo without data'',
      campaign_status = ''ACTIVE'', campaign_spend = None\<rparr>"

text \<open>
  A healthy environment: two campaigns with spend 150 and 100 today, a third whose
  insights row lacks the metric and a fourth with no insights row at all.
\<close>

definition ex_env :: env where
  "ex_env =
     \<lparr>getCampaigns = (\<lambda>account. Returns [ex_c1, ex_c2]),
      getInsights = (\<lambda>cid m.
         if cid = ''c1'' then Returns [[(''spend'', ''150'')]]
         else if cid = ''c2'' then Returns [[(''spend'', ''100'')]]
         else if cid = ''c3'' then Returns [[(''date_start'', ''2024-01-01'')]]
         else Returns []),
      updateCampaign = (\<lambda>cid status. Returns ()),
      cron_schedule = (\<lambda>c. if c = ''0 9 * * *'' then Returns () else Throws ConfigurationError),
      writeFileSync = (\<lambda>rs. Returns ()),
      parseFloat = (\<lambda>raw. if raw = ''150'' then Some 150 else if raw = ''100'' then Some 100 else None),
      toLowerCase = asciiLowerCase\<rparr>"

text \<open>An engine holding \<open>ex_rule\<close> and no job.\<close>

definition ex_engine :: engine where
  "ex_engine = (newEngine True Missing)\<lparr>rules := [(''r1'', ex_rule)]\<rparr>"

text \<open>A rule that triggers below 5, and a campaign for which no insights row comes back.\<close>

definition ex_rule_lt :: AutomationRule where
  "ex_rule_lt = ex_rule\<lparr>trigger := ex_threshold\<lparr>operator := Some ''lt'', threshold_value := Some 5\<rparr>\<rparr>"

definition ex_c4 :: campaign where
  "ex_c4 = ex_c3\<lparr>campaign_id := ''c4''\<rparr>"

text \<open>
  Variants: a schedule rule; a client whose status update fails for campaign \<open>c1\<close>; a
  client whose campaign list fails; a file system that refuses the write; rules with a
  cron expression node-cron rejects, with a zero and with a negative check interval.
\<close>

definition ex_rule_sched :: AutomationRule where
  "ex_rule_sched = ex_rule\<lparr>trigger := ex_schedule\<rparr>"

definition ex_env_update_fails :: env where
  "ex_env_update_fails =
     ex_env\<lparr>updateCampaign := (\<lambda>cid status. if cid = ''c1'' then Throws UpstreamError else Returns ())\<rparr>"

definition ex_env_down :: env where
  "ex_env_down = ex_env\<lparr>getCampaigns := (\<lambda>account. Throws UpstreamError)\<rparr>"

definition ex_env_readonly :: env where
  "ex_env_readonly = ex_env\<lparr>writeFileSync := (\<lambda>rs. Throws PersistenceError)\<rparr>"

definition ex_rule_badcron :: AutomationRule where
  "ex_rule_badcron = ex_rule\<lparr>trigger := ex_schedule\<lparr>cron := Some ''every day''\<rparr>\<rparr>"

definition ex_rule_zero :: AutomationRule where
  "ex_rule_zero = ex_rule\<lparr>trigger := ex_threshold\<lparr>checkInterval := Some 0\<rparr>\<rparr>"

definition ex_rule_negative :: AutomationRule where
  "ex_rule_negative = ex_rule\<lparr>trigger := ex_threshold\<lparr>checkInterval := Some (- 5)\<rparr>\<rparr>"

text \<open>
  Engine states of a run: started on an empty store; then one enabled threshold rule
  added; or one enabled rule with a rejected cron expression added; and the running
  engine after \<open>stop\<close>.
\<close>

definition ex_started :: engine where
  "ex_started = snd (start ex_env (newEngine True Missing))"

definition ex_running :: engine where
  "ex_running = snd (addRule ex_env ''r1'' 5 ex_rule ex_started)"

definition ex_inert :: engine where
  "ex_inert = snd (addRule ex_env ''r9'' 5 ex_rule_badcron ex_started)"

definition ex_stopped :: engine where
  "ex_stopped = snd (stop ex_running)"

text \<open>
  A restart over a stale store: a disabled rule is added (and written to the store),
  then toggled on while the store cannot be written, so that the rule is enabled and
  scheduled in memory and still disabled in the store; then \<open>start\<close> is called again.
\<close>

definition ex_rule_off :: AutomationRule where
  "ex_rule_off = ex_rule\<lparr>enabled := False\<rparr>"

definition ex_idle :: engine where
  "ex_idle = snd (addRule ex_env ''r1'' 5 ex_rule_off ex_started)"

definition ex_unsaved :: engine where
  "ex_unsaved = snd (toggleRule ex_env_readonly ''r1'' ex_idle)"

definition ex_restarted :: engine where
  "ex_restarted = snd (start ex_env ex_unsaved)"

section \<open>Auxiliary notions for the proofs\<close>

text \<open>Two engine states that differ at most in the trace of effects.\<close>

definition same_but_trace :: "engine \<Rightarrow> engine \<Rightarrow> bool" where
  "same_but_trace s s' \<longleftrightarrow> s' = s\<lparr>trace := trace s'\<rparr>"

section \<open>Basic facts\<close>

lemmas ex_defs = ex_threshold_def ex_schedule_def ex_conditions_def ex_pause_def ex_notify_def
  ex_rule_def ex_c1_def ex_c2_def ex_c3_def ex_env_def ex_engine_def newEngine_def

lemma lower_char_plus_32:
  "65 \<le> (of_char c :: nat) \<Longrightarrow> (of_char c :: nat) \<le> 90
    \<Longrightarrow> of_char (lower_char c) = (of_char c :: nat) + 32"
  by (cases c) (auto simp: lower_char_def of_bool_def split: if_splits)

lemma includes_sublist: "includes_str hay needle = sublist needle hay"
  by (induction hay) (auto simp: sublist_Cons_right)

lemma thresholdLoop_filter:
  "fst (thresholdLoop e rule m cs s) = filter (metricTriggers e rule m) cs"
proof (induction cs arbitrary: s)
  case Nil
  show ?case by simp
next
  case (Cons c cs)
  show ?case
  proof (cases "getInsights e (campaign_id c) m")
    case (Throws err)
    then have "\<not> metricTriggers e rule m c" by (simp add: metricTriggers_def)
    with Throws show ?thesis by (simp add: Cons.IH)
  next
    case (Returns rows)
    show ?thesis
    proof (cases rows)
      case Nil
      with Returns have "\<not> metricTriggers e rule m c" by (simp add: metricTriggers_def)
      with Returns Nil show ?thesis by (simp add: Cons.IH)
    next
      case (Cons row others)
      with Returns have "metricTriggers e rule m c = thresholdMet e rule m row"
        by (simp add: metricTriggers_def)
      with Returns Cons show ?thesis by (simp add: Cons.IH case_prod_beta)
    qed
  qed
qed

lemma andThen_simps [simp]:
  "andThen (Returns x, s) f = f x s"
  "andThen (Throws err, s) f = (Throws err, s)"
  by (simp_all add: andThen_def)

lemma andThen_returns: "fst m = Returns x \<Longrightarrow> andThen m f = f x (snd m)"
  by (cases m) simp

lemma same_but_trace_refl [simp]: "same_but_trace s s"
  by (simp add: same_but_trace_def)

lemma same_but_trace_trans:
  "same_but_trace s s' \<Longrightarrow> same_but_trace s' s'' \<Longrightarrow> same_but_trace s s''"
  unfolding same_but_trace_def by (metis engine.update_convs(8) engine.surjective engine.select_convs)

lemma same_but_trace_log [simp]: "same_but_trace s (logError msg s)"
  by (simp add: same_but_trace_def logError_def)

lemma same_but_trace_fields:
  assumes "same_but_trace s s'"
  shows "rules s' = rules s" "cronJobs s' = cronJobs s" "intervalJobs s' = intervalJobs s"
    "timers s' = timers s" "nextHandle s' = nextHandle s" "slackNotifier s' = slackNotifier s"
    "disk s' = disk s"
  using assms unfolding same_but_trace_def
  by (metis engine.select_convs engine.surjective engine.update_convs(8))+

lemma same_but_trace_upd [simp]: "same_but_trace s (s\<lparr>trace := tr\<rparr>)"
  by (simp add: same_but_trace_def)

lemma thresholdLoop_frame: "same_but_trace s (snd (thresholdLoop e rule m cs s))"
proof (induction cs arbitrary: s)
  case Nil
  show ?case by simp
next
  case (Cons c cs)
  have "same_but_trace s (snd (thresholdLoop e rule m cs (logError msg s)))" for msg
    using same_but_trace_trans [OF same_but_trace_log Cons.IH] .
  with Cons.IH show ?case
    by (simp add: case_prod_beta split: completion.split list.split)
qed

lemma triggeredCampaigns_frame: "same_but_trace s (snd (triggeredCampaigns e rule cs s))"
  by (simp add: triggeredCampaigns_def thresholdLoop_frame split: option.split)

lemma executeAction_frame: "same_but_trace s (snd (executeAction e a c rule s))"
  by (simp add: executeAction_def sendAlert_def same_but_trace_def Let_def split: completion.split)

lemma executeAction_throws:
  "executeAction e a c rule s = (Throws err, s') \<Longrightarrow> s' = s"
  by (auto simp: executeAction_def Let_def split: if_splits completion.splits)

lemma actionLoop_frame: "same_but_trace s (snd (actionLoop e rule c as s))"
proof (induction as arbitrary: s)
  case Nil
  show ?case by simp
next
  case (Cons a as)
  show ?case
  proof (cases "executeAction e a c rule s")
    case (Pair r s')
    have st: "same_but_trace s s'" using executeAction_frame [of s e a c rule] Pair by simp
    show ?thesis
    proof (cases r)
      case (Returns u)
      with Pair st Cons.IH [of s'] show ?thesis
        by (auto intro: same_but_trace_trans)
    next
      case (Throws err)
      with Pair st show ?thesis by simp
    qed
  qed
qed

lemma campaignLoop_frame: "same_but_trace s (snd (campaignLoop e rule cs s))"
proof (induction cs arbitrary: s)
  case Nil
  show ?case by simp
next
  case (Cons c cs)
  show ?case
  proof (cases "actionLoop e rule c (actions rule) s")
    case (Pair r s')
    have st: "same_but_trace s s'" using actionLoop_frame [of s e rule c "actions rule"] Pair by simp
    show ?thesis
    proof (cases r)
      case (Returns u)
      with Pair st Cons.IH [of s'] show ?thesis
        by (auto intro: same_but_trace_trans)
    next
      case (Throws err)
      with Pair st show ?thesis by simp
    qed
  qed
qed

lemma actionLoop_append:
  "actionLoop e rule c (as1 @ as2) s =
     andThen (actionLoop e rule c as1 s) (\<lambda>u. actionLoop e rule c as2)"
proof (induction as1 arbitrary: s)
  case Nil
  show ?case by simp
next
  case (Cons a as1)
  show ?case
  proof (cases "executeAction e a c rule s")
    case (Pair r s')
    then show ?thesis by (cases r) (simp_all add: Cons.IH)
  qed
qed

lemma campaignLoop_append:
  "campaignLoop e rule (cs1 @ cs2) s =
     andThen (campaignLoop e rule cs1 s) (\<lambda>u. campaignLoop e rule cs2)"
proof (induction cs1 arbitrary: s)
  case Nil
  show ?case by simp
next
  case (Cons c cs1)
  show ?case
  proof (cases "actionLoop e rule c (actions rule) s")
    case (Pair r s')
    then show ?thesis by (cases r) (simp_all add: Cons.IH)
  qed
qed

lemma saveRules_returns [simp]: "fst (saveRules e s) = Returns ()"
  by (simp add: saveRules_def split: completion.split)

lemma saveRules_fields [simp]:
  "rules (snd (saveRules e s)) = rules s"
  "cronJobs (snd (saveRules e s)) = cronJobs s"
  "intervalJobs (snd (saveRules e s)) = intervalJobs s"
  "timers (snd (saveRules e s)) = timers s"
  "nextHandle (snd (saveRules e s)) = nextHandle s"
  "slackNotifier (snd (saveRules e s)) = slackNotifier s"
  by (simp_all add: saveRules_def logError_def split: completion.split)

lemmas ex_defs2 = ex_rule_sched_def ex_env_update_fails_def ex_env_down_def ex_env_readonly_def

lemma ex_matching:
  "matchesConditions ex_env_update_fails ex_rule_sched ex_c1"
  "matchesConditions ex_env_update_fails ex_rule_sched ex_c2"
  "matchesConditions ex_env ex_rule ex_c1" "matchesConditions ex_env ex_rule ex_c2"
  by (simp_all add: matchesConditions_def ex_defs ex_defs2 asciiLowerCase_def lower_char_def)

lemma executeRule_returns [simp]: "fst (executeRule e now rule s) = Returns ()"
  by (simp add: executeRule_def split: completion.split prod.split)

lemma truthy_number_iff: "truthy_number x \<longleftrightarrow> (\<exists>y. x = Some y \<and> y \<noteq> 0)"
  by (cases x) simp_all

lemma truthy_string_iff: "truthy_string x \<longleftrightarrow> (\<exists>y. x = Some y \<and> y \<noteq> [])"
  by (cases x) simp_all

lemma delete_absent: "map_of al k = None \<Longrightarrow> AList.delete k al = al"
  by (simp add: map_of_eq_None_iff)

lemma unscheduleRule_fields [simp]:
  "rules (unscheduleRule rid s) = rules s"
  "disk (unscheduleRule rid s) = disk s"
  "trace (unscheduleRule rid s) = trace s"
  "slackNotifier (unscheduleRule rid s) = slackNotifier s"
  "nextHandle (unscheduleRule rid s) = nextHandle s"
  by (simp_all add: unscheduleRule_def Let_def split: option.split)

lemma unscheduleRule_cronJobs [simp]:
  "cronJobs (unscheduleRule rid s) = AList.delete rid (cronJobs s)"
  by (simp add: unscheduleRule_def Let_def delete_absent split: option.split)

lemma unscheduleRule_intervalJobs [simp]:
  "intervalJobs (unscheduleRule rid s) = AList.delete rid (intervalJobs s)"
  by (simp add: unscheduleRule_def Let_def delete_absent split: option.split)

lemma unscheduleRule_timers:
  "timers (unscheduleRule rid s) =
     filter (\<lambda>t. map_of (cronJobs s) rid \<noteq> Some (fst t) \<and> map_of (intervalJobs s) rid \<noteq> Some (fst t))
       (timers s)"
  by (auto simp: unscheduleRule_def Let_def stopTimer_def split: option.split intro: filter_cong)

lemma unscheduleRule_noop:
  "map_of (cronJobs s) rid = None \<Longrightarrow> map_of (intervalJobs s) rid = None
    \<Longrightarrow> unscheduleRule rid s = s"
  by (simp add: unscheduleRule_def)

lemma scheduleRule_returns [simp]: "fst (scheduleRule e rule s) = Returns ()"
  by (simp add: scheduleRule_def Let_def split: option.split completion.split)

lemma scheduleRule_fields [simp]:
  "rules (snd (scheduleRule e rule s)) = rules s"
  "disk (snd (scheduleRule e rule s)) = disk s"
  "slackNotifier (snd (scheduleRule e rule s)) = slackNotifier s"
  by (simp_all add: scheduleRule_def Let_def logError_def split: option.split completion.split)

lemma scheduleRule_idle:
  "\<not> (enabled rule \<and> schedulable e (trigger rule))
    \<Longrightarrow> same_but_trace (unscheduleRule (rule_id rule) s) (snd (scheduleRule e rule s))"
  by (auto simp: scheduleRule_def schedulable_def Let_def split: option.split completion.split)

lemma scheduleRule_registers:
  assumes "enabled rule" and "schedulable e (trigger rule)"
  shows "\<exists>j. jobRule j = rule_id rule
      \<and> timers (snd (scheduleRule e rule s))
          = timers (unscheduleRule (rule_id rule) s) @ [(nextHandle s, j)]
      \<and> nextHandle (snd (scheduleRule e rule s)) = Suc (nextHandle s)
      \<and> ((cronJobs (snd (scheduleRule e rule s))
             = AList.update (rule_id rule) (nextHandle s) (AList.delete (rule_id rule) (cronJobs s))
           \<and> intervalJobs (snd (scheduleRule e rule s)) = AList.delete (rule_id rule) (intervalJobs s))
          \<or> (intervalJobs (snd (scheduleRule e rule s))
             = AList.update (rule_id rule) (nextHandle s) (AList.delete (rule_id rule) (intervalJobs s))
           \<and> cronJobs (snd (scheduleRule e rule s)) = AList.delete (rule_id rule) (cronJobs s)))"
  using assms
  by (auto simp: scheduleRule_def schedulable_def Let_def truthy_number_iff truthy_string_iff
      split: if_splits)

lemma liveJobs_zero_iff:
  "liveJobs s rid = 0 \<longleftrightarrow> (\<forall>t \<in> set (timers s). jobRule (snd t) \<noteq> rid)"
  by (auto simp: liveJobs_def filter_empty_conv)

lemma timer_inv_cong:
  "timers s' = timers s \<Longrightarrow> nextHandle s' = nextHandle s \<Longrightarrow> cronJobs s' = cronJobs s
    \<Longrightarrow> intervalJobs s' = intervalJobs s \<Longrightarrow> timer_inv s' = timer_inv s"
  by (simp add: timer_inv_def)

lemma liveJobs_cong: "timers s' = timers s \<Longrightarrow> liveJobs s' rid = liveJobs s rid"
  by (simp add: liveJobs_def)

lemma map_of_dom: "map_of al k = Some v \<Longrightarrow> k \<in> fst ` set al"
  by (metis domI dom_map_of_conv_image_fst)

lemma disjoint_subset: "A \<inter> B = {} \<Longrightarrow> A' \<subseteq> A \<Longrightarrow> B' \<subseteq> B \<Longrightarrow> A' \<inter> B' = {}"
  by auto

lemma disjoint_insert:
  "A \<inter> B = {} \<Longrightarrow> k \<notin> B \<Longrightarrow> A' = {k} \<union> A \<Longrightarrow> B' = B \<Longrightarrow> A' \<inter> B' = {}"
  by auto

lemma unschedule_subset: "set (timers (unscheduleRule rid s)) \<subseteq> set (timers s)"
  by (auto simp: unscheduleRule_timers)

lemma unschedule_clears:
  assumes "timer_inv s" and "t \<in> set (timers (unscheduleRule rid s))"
  shows "jobRule (snd t) \<noteq> rid"
proof
  assume eq: "jobRule (snd t) = rid"
  from assms(2) have t: "t \<in> set (timers s)"
    and ne: "map_of (cronJobs s) rid \<noteq> Some (fst t)" "map_of (intervalJobs s) rid \<noteq> Some (fst t)"
    by (auto simp: unscheduleRule_timers)
  from assms(1) t have "map_of (cronJobs s) (jobRule (snd t)) = Some (fst t)
      \<or> map_of (intervalJobs s) (jobRule (snd t)) = Some (fst t)"
    by (simp add: timer_inv_def)
  with eq ne show False by simp
qed

lemma liveJobs_unschedule: "timer_inv s \<Longrightarrow> liveJobs (unscheduleRule rid s) rid = 0"
  by (auto simp: liveJobs_zero_iff dest: unschedule_clears)

lemma timer_inv_unschedule:
  assumes "timer_inv s"
  shows "timer_inv (unscheduleRule rid s)"
proof -
  let ?u = "unscheduleRule rid s"
  have d: "distinct (map fst (timers ?u))"
    using assms by (simp add: timer_inv_def unscheduleRule_timers distinct_map_filter)
  have b: "\<forall>t \<in> set (timers ?u). fst t < nextHandle ?u"
    using assms unschedule_subset [of rid s] by (auto simp: timer_inv_def)
  have r: "\<forall>t \<in> set (timers ?u).
           map_of (cronJobs ?u) (jobRule (snd t)) = Some (fst t)
           \<or> map_of (intervalJobs ?u) (jobRule (snd t)) = Some (fst t)"
  proof
    fix t assume t: "t \<in> set (timers ?u)"
    then have ne: "jobRule (snd t) \<noteq> rid" using assms by (rule unschedule_clears [rotated])
    from t unschedule_subset [of rid s] have "t \<in> set (timers s)" by blast
    with assms have "map_of (cronJobs s) (jobRule (snd t)) = Some (fst t)
      \<or> map_of (intervalJobs s) (jobRule (snd t)) = Some (fst t)"
      by (simp add: timer_inv_def)
    with ne show "map_of (cronJobs ?u) (jobRule (snd t)) = Some (fst t)
           \<or> map_of (intervalJobs ?u) (jobRule (snd t)) = Some (fst t)"
      by simp
  qed
  have "fst ` set (cronJobs s) \<inter> fst ` set (intervalJobs s) = {}"
    using assms by (simp add: timer_inv_def)
  then have "fst ` set (AList.delete rid (cronJobs s)) \<inter> fst ` set (AList.delete rid (intervalJobs s)) = {}"
    by (rule disjoint_subset) (rule dom_delete_subset)+
  then have x: "fst ` set (cronJobs ?u) \<inter> fst ` set (intervalJobs ?u) = {}"
    by simp
  from d b r x show ?thesis by (simp add: timer_inv_def)
qed

lemma timer_inv_schedule:
  assumes "timer_inv s"
  shows "timer_inv (snd (scheduleRule e rule s))"
proof (cases "enabled rule \<and> schedulable e (trigger rule)")
  case False
  then have "same_but_trace (unscheduleRule (rule_id rule) s) (snd (scheduleRule e rule s))"
    by (rule scheduleRule_idle)
  then have "timer_inv (snd (scheduleRule e rule s)) = timer_inv (unscheduleRule (rule_id rule) s)"
    by (intro timer_inv_cong same_but_trace_fields)
  with assms show ?thesis by (simp add: timer_inv_unschedule)
next
  case True
  let ?rid = "rule_id rule"
  let ?u = "unscheduleRule ?rid s"
  let ?s' = "snd (scheduleRule e rule s)"
  have u: "timer_inv ?u" using assms by (rule timer_inv_unschedule)
  from True scheduleRule_registers [of rule e s] obtain j where j: "jobRule j = ?rid"
    and tm: "timers ?s' = timers ?u @ [(nextHandle s, j)]"
    and nh: "nextHandle ?s' = Suc (nextHandle s)"
    and maps: "(cronJobs ?s' = AList.update ?rid (nextHandle s) (AList.delete ?rid (cronJobs s))
           \<and> intervalJobs ?s' = AList.delete ?rid (intervalJobs s))
          \<or> (intervalJobs ?s' = AList.update ?rid (nextHandle s) (AList.delete ?rid (intervalJobs s))
           \<and> cronJobs ?s' = AList.delete ?rid (cronJobs s))"
    by blast
  have lt: "\<forall>t \<in> set (timers ?u). fst t < nextHandle s"
    using u by (simp add: timer_inv_def)
  have d: "distinct (map fst (timers ?s'))"
    using u lt by (auto simp: tm timer_inv_def)
  have b: "\<forall>t \<in> set (timers ?s'). fst t < nextHandle ?s'"
    using lt by (auto simp: tm nh)
  have r: "\<forall>t \<in> set (timers ?s').
           map_of (cronJobs ?s') (jobRule (snd t)) = Some (fst t)
           \<or> map_of (intervalJobs ?s') (jobRule (snd t)) = Some (fst t)"
  proof
    fix t assume "t \<in> set (timers ?s')"
    then consider "t = (nextHandle s, j)" | "t \<in> set (timers ?u)" by (auto simp: tm)
    then show "map_of (cronJobs ?s') (jobRule (snd t)) = Some (fst t)
           \<or> map_of (intervalJobs ?s') (jobRule (snd t)) = Some (fst t)"
    proof cases
      case 1
      with j maps show ?thesis by (auto simp: update_conv')
    next
      case 2
      then have ne: "jobRule (snd t) \<noteq> ?rid" using assms by (rule unschedule_clears [rotated])
      from u 2 have "map_of (cronJobs ?u) (jobRule (snd t)) = Some (fst t)
           \<or> map_of (intervalJobs ?u) (jobRule (snd t)) = Some (fst t)"
        by (simp add: timer_inv_def)
      with ne maps show ?thesis by (auto simp: update_conv')
    qed
  qed
  have x: "fst ` set (cronJobs ?s') \<inter> fst ` set (intervalJobs ?s') = {}"
  proof -
    have dj: "fst ` set (AList.delete ?rid (cronJobs s))
        \<inter> fst ` set (AList.delete ?rid (intervalJobs s)) = {}"
      using u by (simp add: timer_inv_def)
    have nc: "?rid \<notin> fst ` set (AList.delete ?rid (cronJobs s))"
      and ni: "?rid \<notin> fst ` set (AList.delete ?rid (intervalJobs s))"
      by (rule delete_notin_dom)+
    from maps show ?thesis
    proof
      assume "cronJobs ?s' = AList.update ?rid (nextHandle s) (AList.delete ?rid (cronJobs s))
           \<and> intervalJobs ?s' = AList.delete ?rid (intervalJobs s)"
      then have "fst ` set (cronJobs ?s') = {?rid} \<union> fst ` set (AList.delete ?rid (cronJobs s))"
        and "fst ` set (intervalJobs ?s') = fst ` set (AList.delete ?rid (intervalJobs s))"
        by (simp_all add: dom_update)
      with dj ni show ?thesis by (rule disjoint_insert)
    next
      assume "intervalJobs ?s' = AList.update ?rid (nextHandle s) (AList.delete ?rid (intervalJobs s))
           \<and> cronJobs ?s' = AList.delete ?rid (cronJobs s)"
      then have ia: "fst ` set (intervalJobs ?s') = {?rid} \<union> fst ` set (AList.delete ?rid (intervalJobs s))"
        and cb: "fst ` set (cronJobs ?s') = fst ` set (AList.delete ?rid (cronJobs s))"
        by (simp_all add: dom_update)
      from dj have dj': "fst ` set (AList.delete ?rid (intervalJobs s))
          \<inter> fst ` set (AList.delete ?rid (cronJobs s)) = {}"
        by (simp add: Int_commute)
      have "fst ` set (intervalJobs ?s') \<inter> fst ` set (cronJobs ?s') = {}"
        by (rule disjoint_insert [OF dj' nc ia cb])
      then show ?thesis by (simp add: Int_commute)
    qed
  qed
  from d b r x show ?thesis by (simp add: timer_inv_def)
qed

lemma liveJobs_schedule:
  assumes "timer_inv s"
  shows "liveJobs (snd (scheduleRule e rule s)) (rule_id rule)
           = (if enabled rule \<and> schedulable e (trigger rule) then 1 else 0)"
proof (cases "enabled rule \<and> schedulable e (trigger rule)")
  case False
  then have "same_but_trace (unscheduleRule (rule_id rule) s) (snd (scheduleRule e rule s))"
    by (rule scheduleRule_idle)
  then have "liveJobs (snd (scheduleRule e rule s)) (rule_id rule)
      = liveJobs (unscheduleRule (rule_id rule) s) (rule_id rule)"
    by (intro liveJobs_cong same_but_trace_fields)
  with assms False show ?thesis by (simp add: liveJobs_unschedule)
next
  case True
  from True scheduleRule_registers [of rule e s] obtain j where j: "jobRule j = rule_id rule"
    and tm: "timers (snd (scheduleRule e rule s))
               = timers (unscheduleRule (rule_id rule) s) @ [(nextHandle s, j)]"
    by blast
  have "liveJobs (unscheduleRule (rule_id rule) s) (rule_id rule) = 0"
    using assms by (rule liveJobs_unschedule)
  with True j show ?thesis by (simp add: liveJobs_def tm)
qed

lemma filter_unique:
  "distinct (map f xs) \<Longrightarrow> (\<forall>x \<in> set xs. \<forall>y \<in> set xs. P x \<longrightarrow> P y \<longrightarrow> f x = f y)
    \<Longrightarrow> length (filter P xs) \<le> 1"
proof (induction xs)
  case Nil
  show ?case by simp
next
  case (Cons x xs)
  from Cons.prems(1) have dx: "f x \<notin> f ` set xs" and dxs: "distinct (map f xs)" by simp_all
  from Cons.prems(2) have all: "\<forall>a \<in> set xs. \<forall>b \<in> set xs. P a \<longrightarrow> P b \<longrightarrow> f a = f b"
    by (meson list.set_intros(2))
  show ?case
  proof (cases "P x")
    case True
    have "\<not> P y" if y: "y \<in> set xs" for y
    proof
      assume "P y"
      with True y Cons.prems(2) have "f x = f y"
        by (meson list.set_intros(1) list.set_intros(2))
      with y have "f x \<in> f ` set xs" by simp
      with dx show False ..
    qed
    then have "filter P xs = []" by (simp add: filter_empty_conv)
    with True show ?thesis by simp
  next
    case False
    with Cons.IH [OF dxs all] show ?thesis by simp
  qed
qed

lemma liveJobs_le_1:
  assumes "timer_inv s"
  shows "liveJobs s rid \<le> 1"
proof -
  from assms have reg: "\<forall>t \<in> set (timers s).
           map_of (cronJobs s) (jobRule (snd t)) = Some (fst t)
           \<or> map_of (intervalJobs s) (jobRule (snd t)) = Some (fst t)"
    and dj: "fst ` set (cronJobs s) \<inter> fst ` set (intervalJobs s) = {}"
    and d: "distinct (map fst (timers s))"
    unfolding timer_inv_def by blast+
  have one: "fst x = fst y"
    if x: "x \<in> set (timers s)" and y: "y \<in> set (timers s)"
      and jx: "jobRule (snd x) = rid" and jy: "jobRule (snd y) = rid"
    for x y
  proof -
    from reg x jx have
      rx: "map_of (cronJobs s) rid = Some (fst x) \<or> map_of (intervalJobs s) rid = Some (fst x)"
      by blast
    from reg y jy have
      ry: "map_of (cronJobs s) rid = Some (fst y) \<or> map_of (intervalJobs s) rid = Some (fst y)"
      by blast
    from dj have nb: "\<not> (rid \<in> fst ` set (cronJobs s) \<and> rid \<in> fst ` set (intervalJobs s))"
      by blast
    show ?thesis
    proof (cases "map_of (cronJobs s) rid")
      case None
      with rx ry have "map_of (intervalJobs s) rid = Some (fst x)"
        "map_of (intervalJobs s) rid = Some (fst y)" by simp_all
      then show ?thesis by simp
    next
      case (Some h)
      then have "rid \<in> fst ` set (cronJobs s)" by (rule map_of_dom)
      with nb have "rid \<notin> fst ` set (intervalJobs s)" by blast
      then have "map_of (intervalJobs s) rid = None" by (simp add: map_of_eq_None_iff)
      with rx ry have "map_of (cronJobs s) rid = Some (fst x)"
        "map_of (cronJobs s) rid = Some (fst y)" by simp_all
      then show ?thesis by simp
    qed
  qed
  have "\<forall>x \<in> set (timers s). \<forall>y \<in> set (timers s).
      jobRule (snd x) = rid \<longrightarrow> jobRule (snd y) = rid \<longrightarrow> fst x = fst y"
    using one by blast
  with d show ?thesis
    unfolding liveJobs_def by (rule filter_unique)
qed

lemmas ex_defs3 = ex_rule_badcron_def ex_rule_zero_def ex_rule_negative_def

lemma removeRule_returns [simp]: "fst (removeRule e ruleId s) = Returns ()"
  by (simp add: removeRule_def Let_def)

lemma toggleRule_returns [simp]: "fst (toggleRule e ruleId s) = Returns ()"
  by (simp add: toggleRule_def Let_def andThen_returns [OF saveRules_returns] split: option.split)

lemma addRule_returns [simp]: "fst (addRule e newId now ruleData s) = Returns newId"
  by (simp add: addRule_def Let_def andThen_returns [OF saveRules_returns]
      andThen_returns [OF scheduleRule_returns])

lemma addRule_rules [simp]:
  "rules (snd (addRule e newId now ruleData s))
     = AList.update newId (ruleData\<lparr>rule_id := newId, createdAt := now\<rparr>) (rules s)"
  by (simp add: addRule_def Let_def andThen_returns [OF saveRules_returns]
      andThen_returns [OF scheduleRule_returns])

lemma timer_inv_ex_engine: "timer_inv ex_engine"
  by (simp add: timer_inv_def ex_engine_def newEngine_def)

section \<open>The static conditions filter (C1)\<close>

text \<open>
  C1, as the specification states it, fails: the filter of \<open>executeRule\<close> never looks at
  \<open>minSpend\<close> or \<open>maxSpend\<close>. A rule with \<open>minSpend = 100\<close> passes a campaign whose
  spend is 5, which the filter described by the specification rejects.
\<close>

theorem conditions_filter_spend_counterexample:
  "matchesConditions ex_env (ex_rule\<lparr>conditions := ex_conditions\<lparr>minSpend := Some 100\<rparr>\<rparr>) ex_c1
   \<and> \<not> spec_conditions_pass ex_env
         (ex_rule\<lparr>conditions := ex_conditions\<lparr>minSpend := Some 100\<rparr>\<rparr>) ex_c1"
  by (simp add: matchesConditions_def spec_conditions_pass_def ex_defs asciiLowerCase_def lower_char_def)

text \<open>
  C1 (amended): a campaign passes the static conditions filter iff the status filter
  (when specified, non-empty and not \<open>ANY\<close>) equals the campaign's status and the name
  filter (when specified and non-empty), folded by JavaScript's \<open>toLowerCase\<close>, occurs
  in the campaign's name, folded by \<open>toLowerCase\<close> as well; a campaign with no name
  fails a name filter. This holds for whatever \<open>toLowerCase\<close> computes: the
  case-insensitivity of the match is that of this function of the runtime. The spend
  bounds of the rule and the spend of the campaign have no influence on the result.
\<close>

theorem conditions_filter_status_and_name:
  "(matchesConditions e rule c \<longleftrightarrow>
      (case campaignStatus (conditions rule) of
         None \<Rightarrow> True
       | Some st \<Rightarrow> st = [] \<or> st = ''ANY'' \<or> campaign_status c = st)
      \<and> (case campaignNameContains (conditions rule) of
         None \<Rightarrow> True
       | Some sub \<Rightarrow> sub = [] \<or>
           (case campaign_name c of
              None \<Rightarrow> False
            | Some n \<Rightarrow> sublist (toLowerCase e sub) (toLowerCase e n))))
   \<and> matchesConditions e
        (rule\<lparr>conditions := (conditions rule)\<lparr>minSpend := lo, maxSpend := hi\<rparr>\<rparr>)
        (c\<lparr>campaign_spend := x\<rparr>)
      = matchesConditions e rule c"
  by (auto simp: matchesConditions_def includes_sublist split: option.splits)

theorem conditions_filter_witness:
  "matchesConditions ex_env ex_rule ex_c1
   \<and> matchesConditions ex_env
        (ex_rule\<lparr>conditions := (conditions ex_rule)\<lparr>minSpend := Some 100, maxSpend := Some 200\<rparr>\<rparr>)
        (ex_c1\<lparr>campaign_spend := Some 5\<rparr>)"
proof -
  have "matchesConditions ex_env ex_rule ex_c1"
    by (simp add: matchesConditions_def ex_defs asciiLowerCase_def lower_char_def)
  with conditions_filter_status_and_name
         [where e = ex_env and rule = ex_rule and c = ex_c1 and lo = "Some 100" and hi = "Some 200" and x = "Some 5"]
  show ?thesis by blast
qed

section \<open>Threshold comparison (C6)\<close>

text \<open>
  C6: for a threshold rule (type \<open>threshold\<close>, a metric, an operator and a threshold
  value) and a condition-passing campaign whose insights call returned a first row, the
  campaign is in the triggered list iff the metric value compares with the threshold as
  the operator says: \<open>gt\<close> is strict \<open>>\<close>, \<open>lt\<close> is strict \<open><\<close>, \<open>eq\<close> is
  equality with no tolerance. In particular 150 exceeds the threshold 100 and 100 does not.
\<close>

theorem threshold_trigger_compare:
  assumes "trigger_type (trigger rule) = ''threshold''"
    and "metric (trigger rule) = Some m" and "m \<noteq> []"
    and "operator (trigger rule) = Some op"
    and "threshold_value (trigger rule) = Some v"
    and "c \<in> set matching"
    and "getInsights e (campaign_id c) m = Returns (row # others)"
  shows "(c \<in> set (fst (triggeredCampaigns e rule matching s)) \<longleftrightarrow>
           (op = ''gt'' \<and> metricValue e row m > v)
           \<or> (op = ''lt'' \<and> metricValue e row m < v)
           \<or> (op = ''eq'' \<and> metricValue e row m = v))
         \<and> checkThreshold 150 ''gt'' 100 \<and> \<not> checkThreshold 100 ''gt'' 100"
  using assms
  by (auto simp: triggeredCampaigns_def thresholdLoop_filter metricTriggers_def thresholdMet_def
      checkThreshold_def)

theorem threshold_trigger_witness:
  "ex_c1 \<in> set (fst (triggeredCampaigns ex_env ex_rule [ex_c1, ex_c2] ex_engine))
   \<and> ex_c2 \<notin> set (fst (triggeredCampaigns ex_env ex_rule [ex_c1, ex_c2] ex_engine))"
  using threshold_trigger_compare [where rule = ex_rule and m = "''spend''" and op = "''gt''"
      and v = 100 and c = ex_c1 and matching = "[ex_c1, ex_c2]" and e = ex_env
      and row = "[(''spend'', ''150'')]" and others = "[]" and s = ex_engine]
    threshold_trigger_compare [where rule = ex_rule and m = "''spend''" and op = "''gt''"
      and v = 100 and c = ex_c2 and matching = "[ex_c1, ex_c2]" and e = ex_env
      and row = "[(''spend'', ''100'')]" and others = "[]" and s = ex_engine]
  by (simp add: ex_defs metricValue_def)


section \<open>Missing and empty metric data (C9)\<close>

text \<open>
  C9: for a threshold rule and a condition-passing campaign, if the insights call returns
  a first row in which the metric field is absent or holds a value \<open>parseFloat\<close> cannot
  read, the metric value compared is 0 and the campaign is triggered iff 0 meets the
  threshold; in particular the operator \<open>lt\<close> with a positive threshold triggers it. A
  campaign whose insights call returns no row is not triggered.
\<close>

theorem unparseable_metric_counts_as_zero:
  assumes "trigger_type (trigger rule) = ''threshold''"
    and "metric (trigger rule) = Some m" and "m \<noteq> []"
    and "c \<in> set matching"
  shows "(getInsights e (campaign_id c) m = Returns (row # others)
            \<and> (map_of row m = None \<or> (\<exists>raw. map_of row m = Some raw \<and> parseFloat e raw = None))
          \<longrightarrow> metricValue e row m = 0
              \<and> (c \<in> set (fst (triggeredCampaigns e rule matching s)) \<longleftrightarrow>
                   (case operator (trigger rule) of
                      None \<Rightarrow> False
                    | Some op \<Rightarrow>
                       (case threshold_value (trigger rule) of
                          None \<Rightarrow> False
                        | Some v \<Rightarrow> checkThreshold 0 op v)))
              \<and> (operator (trigger rule) = Some ''lt'' \<and> threshold_value (trigger rule) = Some v
                    \<and> 0 < v
                  \<longrightarrow> c \<in> set (fst (triggeredCampaigns e rule matching s))))
         \<and> (getInsights e (campaign_id c) m = Returns []
          \<longrightarrow> c \<notin> set (fst (triggeredCampaigns e rule matching s)))"
proof -
  have tr: "fst (triggeredCampaigns e rule matching s) = filter (metricTriggers e rule m) matching"
    using assms(1-3) by (simp add: triggeredCampaigns_def thresholdLoop_filter)
  have zero: "metricValue e row m = 0"
    if "map_of row m = None \<or> (\<exists>raw. map_of row m = Some raw \<and> parseFloat e raw = None)"
    using that by (auto simp: metricValue_def)
  show ?thesis
    using assms(4) zero
    by (auto simp: tr metricTriggers_def thresholdMet_def checkThreshold_def
        split: option.splits)
qed

theorem unparseable_metric_witness:
  "ex_c3 \<in> set (fst (triggeredCampaigns ex_env ex_rule_lt [ex_c3, ex_c4] ex_engine))
   \<and> ex_c4 \<notin> set (fst (triggeredCampaigns ex_env ex_rule_lt [ex_c3, ex_c4] ex_engine))"
proof -
  have pre: "trigger_type (trigger ex_rule_lt) = ''threshold''"
    "metric (trigger ex_rule_lt) = Some ''spend''" "''spend'' \<noteq> []"
    "ex_c3 \<in> set [ex_c3, ex_c4]" "ex_c4 \<in> set [ex_c3, ex_c4]"
    by (simp_all add: ex_rule_lt_def ex_c4_def ex_defs)
  have c3: "getInsights ex_env (campaign_id ex_c3) ''spend'' = Returns ([(''date_start'', ''2024-01-01'')] # [])"
    "map_of [(''date_start'', ''2024-01-01'')] ''spend'' = None"
    "operator (trigger ex_rule_lt) = Some ''lt''" "threshold_value (trigger ex_rule_lt) = Some 5"
    by (simp_all add: ex_rule_lt_def ex_defs)
  have c4: "getInsights ex_env (campaign_id ex_c4) ''spend'' = Returns []"
    by (simp add: ex_c4_def ex_defs)
  from unparseable_metric_counts_as_zero [OF pre(1-4), where e = ex_env
      and row = "[(''date_start'', ''2024-01-01'')]" and others = "[]" and v = 5 and s = ex_engine]
    c3
  have a: "ex_c3 \<in> set (fst (triggeredCampaigns ex_env ex_rule_lt [ex_c3, ex_c4] ex_engine))"
    by (simp add: checkThreshold_def)
  from unparseable_metric_counts_as_zero [OF pre(1-3) pre(5), where e = ex_env and s = ex_engine] c4
  have b: "ex_c4 \<notin> set (fst (triggeredCampaigns ex_env ex_rule_lt [ex_c3, ex_c4] ex_engine))"
    by simp
  from a b show ?thesis by simp
qed

section \<open>Rules of an account (C10)\<close>

text \<open>
  C10: \<open>getRulesForAccount(a)\<close> returns exactly the stored rules whose \<open>accountId\<close> is
  \<open>a\<close> or \<open>act_\<close> followed by \<open>a\<close>, in the order of the rule map, and leaves the
  engine as it was.
\<close>

theorem getRulesForAccount_exact:
  "(\<exists>rs. getRulesForAccount a s = (Returns rs, s)
      \<and> set rs = {r \<in> snd ` set (rules s). accountId r = a \<or> accountId r = ''act_'' @ a}
      \<and> subseq rs (map snd (rules s)))"
  by (auto simp: getRulesForAccount_def)

theorem getRulesForAccount_witness:
  "getRulesForAccount ''1'' ex_engine = (Returns [ex_rule], ex_engine)
   \<and> getRulesForAccount ''act_1'' ex_engine = (Returns [ex_rule], ex_engine)
   \<and> getRulesForAccount ''2'' ex_engine = (Returns [], ex_engine)"
  using getRulesForAccount_exact [of "''1''" ex_engine]
  by (simp add: getRulesForAccount_def ex_defs)


section \<open>A failing action (C2)\<close>

text \<open>
  C2, as the specification states it, fails: \<open>executeAction\<close> does not catch the
  exception of \<open>updateCampaign\<close>, so it leaves both loops of \<open>executeRule\<close> and reaches
  the single \<open>catch\<close> of that function. With a client that fails to pause campaign
  \<open>c1\<close> and would pause \<open>c2\<close>, and the actions pause and notify, the fire does nothing
  but log the error: no notification for \<open>c1\<close>, nothing for \<open>c2\<close>.
\<close>

theorem action_failure_counterexample:
  "updateCampaign ex_env_update_fails ''c1'' ''PAUSED'' = Throws UpstreamError
   \<and> updateCampaign ex_env_update_fails ''c2'' ''PAUSED'' = Returns ()
   \<and> actions ex_rule_sched = [ex_pause, ex_notify]
   \<and> trace (snd (executeRule ex_env_update_fails 1000 ex_rule_sched ex_engine))
       = [ErrorLogged ''Error executing rule'']"
proof -
  have "getCampaigns ex_env_update_fails (accountId ex_rule_sched) = Returns [ex_c1, ex_c2]"
    by (simp add: ex_defs ex_defs2)
  moreover have "triggeredCampaigns ex_env_update_fails ex_rule_sched [ex_c1, ex_c2] ex_engine
      = ([ex_c1, ex_c2], ex_engine)"
    by (simp add: triggeredCampaigns_def ex_defs ex_defs2)
  moreover have "campaignLoop ex_env_update_fails ex_rule_sched [ex_c1, ex_c2] ex_engine
      = (Throws UpstreamError, ex_engine)"
    by (simp add: executeAction_def ex_defs ex_defs2)
  ultimately have "executeRule ex_env_update_fails 1000 ex_rule_sched ex_engine
      = (Returns (), logError ''Error executing rule'' ex_engine)"
    by (simp add: executeRule_def ex_matching)
  then show ?thesis
    by (simp add: logError_def ex_defs ex_defs2)
qed

text \<open>
  C2 (amended): when applying an action to a triggered campaign throws, the whole fire
  stops there. The engine is left as it was after the campaigns before it and the actions
  before it for this campaign, plus one logged error; the remaining actions for this
  campaign and all later triggered campaigns are not processed, and the rule map (hence
  \<open>lastRunAt\<close>) is unchanged. The failed action itself leaves no effect.
\<close>

theorem action_failure_aborts_fire:
  assumes "getCampaigns e (accountId rule) = Returns campaigns"
    and "triggeredCampaigns e rule (filter (matchesConditions e rule) campaigns) s
          = (before @ c # later, s0)"
    and "campaignLoop e rule before s0 = (Returns (), s1)"
    and "actions rule = earlier @ a # rest"
    and "actionLoop e rule c earlier s1 = (Returns (), s2)"
    and "executeAction e a c rule s2 = (Throws err, s3)"
  shows "executeRule e now rule s = (Returns (), logError ''Error executing rule'' s2)
         \<and> s3 = s2
         \<and> rules (snd (executeRule e now rule s)) = rules s"
proof -
  have s3: "s3 = s2" using assms(6) by (rule executeAction_throws)
  have inner: "actionLoop e rule c (actions rule) s1 = (Throws err, s2)"
    using assms(4-6) s3 by (simp add: actionLoop_append)
  have outer: "campaignLoop e rule (before @ c # later) s0 = (Throws err, s2)"
    using assms(3) inner by (simp add: campaignLoop_append)
  have res: "executeRule e now rule s = (Returns (), logError ''Error executing rule'' s2)"
    using assms(1,2) outer by (simp add: executeRule_def)
  have "same_but_trace s s0"
    using triggeredCampaigns_frame [of s e rule "filter (matchesConditions e rule) campaigns"] assms(2)
    by simp
  moreover have "same_but_trace s0 s1"
    using campaignLoop_frame [of s0 e rule before] assms(3) by simp
  moreover have "same_but_trace s1 s2"
    using actionLoop_frame [of s1 e rule c earlier] assms(5) by simp
  ultimately have "same_but_trace s s2" by (blast intro: same_but_trace_trans)
  then have "rules s2 = rules s" by (rule same_but_trace_fields)
  with res s3 show ?thesis by (simp add: logError_def)
qed

theorem action_failure_witness:
  "executeRule ex_env_update_fails 1000 ex_rule_sched ex_engine
     = (Returns (), logError ''Error executing rule'' ex_engine)"
proof -
  have "getCampaigns ex_env_update_fails (accountId ex_rule_sched) = Returns [ex_c1, ex_c2]"
    by (simp add: ex_defs ex_defs2)
  moreover have "triggeredCampaigns ex_env_update_fails ex_rule_sched
      (filter (matchesConditions ex_env_update_fails ex_rule_sched) [ex_c1, ex_c2]) ex_engine
      = ([] @ ex_c1 # [ex_c2], ex_engine)"
    by (simp add: ex_matching triggeredCampaigns_def) (simp add: ex_defs ex_defs2)
  moreover have "campaignLoop ex_env_update_fails ex_rule_sched [] ex_engine = (Returns (), ex_engine)"
    by simp
  moreover have "actions ex_rule_sched = [] @ ex_pause # [ex_notify]"
    by (simp add: ex_defs ex_defs2)
  moreover have "actionLoop ex_env_update_fails ex_rule_sched ex_c1 [] ex_engine = (Returns (), ex_engine)"
    by simp
  moreover have "executeAction ex_env_update_fails ex_pause ex_c1 ex_rule_sched ex_engine
      = (Throws UpstreamError, ex_engine)"
    by (simp add: executeAction_def ex_defs ex_defs2)
  ultimately show ?thesis
    using action_failure_aborts_fire [where now = 1000] by blast
qed

section \<open>The time of the last run (C3)\<close>




section \<open>A failing store write (C4)\<close>

text \<open>
  C4, as the specification states it, fails: \<open>saveRules\<close> catches the failure of the
  write and logs it, so no error reaches the caller of \<open>addRule\<close>. With a file system
  that refuses the write, \<open>addRule\<close> returns the new id.
\<close>

theorem addRule_write_failure_counterexample:
  "writeFileSync ex_env_readonly
      (map snd (AList.update ''r2'' (ex_rule\<lparr>rule_id := ''r2'', createdAt := 7\<rparr>) (rules ex_engine)))
     = Throws PersistenceError
   \<and> fst (addRule ex_env_readonly ''r2'' 7 ex_rule ex_engine) = Returns ''r2''"
  by (simp add: ex_defs2 ex_env_def)

text \<open>
  C4 (amended): \<open>addRule\<close> always returns the newly assigned id and the rule is in the
  rule map under that id, whether or not the store write succeeds; \<open>removeRule\<close> and
  \<open>toggleRule\<close> always return as well. A failing write is logged by \<open>saveRules\<close>, which
  returns normally and leaves the engine otherwise unchanged.
\<close>

theorem addRule_always_returns:
  "fst (addRule e newId now ruleData s) = Returns newId
   \<and> map_of (rules (snd (addRule e newId now ruleData s))) newId
       = Some (ruleData\<lparr>rule_id := newId, createdAt := now\<rparr>)
   \<and> fst (removeRule e ruleId s) = Returns ()
   \<and> fst (toggleRule e ruleId s) = Returns ()
   \<and> (writeFileSync e (map snd (rules s)) = Throws err
        \<longrightarrow> saveRules e s = (Returns (), logError ''Error saving automation rules:'' s))"
  by (simp add: update_conv' saveRules_def)

theorem addRule_always_returns_witness:
  "saveRules ex_env_readonly ex_engine
     = (Returns (), logError ''Error saving automation rules:'' ex_engine)
   \<and> fst (addRule ex_env_readonly ''r2'' 7 ex_rule ex_engine) = Returns ''r2''"
  using addRule_always_returns [where e = ex_env_readonly and s = ex_engine and newId = "''r2''"
      and now = 7 and ruleData = ex_rule and err = PersistenceError]
  by (simp add: ex_defs2 ex_env_def)

section \<open>Malformed triggers (C5)\<close>

text \<open>
  C5, as the specification states it, fails: \<open>scheduleRule\<close> catches the exception of
  node-cron and logs it, and it never validates the check interval. Scheduling a rule
  with a rejected cron expression, with interval 0 or with a negative interval returns
  normally; with the negative interval a timer is even registered.
\<close>

theorem scheduleRule_malformed_counterexample:
  "cron_schedule ex_env ''every day'' = Throws ConfigurationError
   \<and> fst (scheduleRule ex_env ex_rule_badcron ex_engine) = Returns ()
   \<and> fst (scheduleRule ex_env ex_rule_zero ex_engine) = Returns ()
   \<and> fst (scheduleRule ex_env ex_rule_negative ex_engine) = Returns ()
   \<and> liveJobs (snd (scheduleRule ex_env ex_rule_negative ex_engine)) ''r1'' = 1"
proof -
  have "enabled ex_rule_negative \<and> schedulable ex_env (trigger ex_rule_negative)"
    "rule_id ex_rule_negative = ''r1''"
    by (simp_all add: schedulable_def ex_defs ex_defs3)
  with liveJobs_schedule [OF timer_inv_ex_engine, of ex_env ex_rule_negative]
  have "liveJobs (snd (scheduleRule ex_env ex_rule_negative ex_engine)) ''r1'' = 1" by simp
  then show ?thesis by (simp add: ex_env_def)
qed

text \<open>
  C5 (amended): scheduling an enabled rule whose schedule trigger carries an expression
  node-cron rejects, or whose threshold trigger has a check interval of 0, returns
  normally to the caller (the cron error is only logged) and leaves no job registered
  for the rule in either job map, and no live timer for it when the scheduler was
  consistent before; the rule map is untouched, so the rule stays stored but unscheduled.
\<close>

theorem scheduleRule_malformed_trigger:
  assumes "enabled rule"
    and "(trigger_type (trigger rule) = ''schedule'' \<and> cron (trigger rule) = Some c
            \<and> cron_schedule e c = Throws err)
         \<or> (trigger_type (trigger rule) = ''threshold'' \<and> checkInterval (trigger rule) = Some 0)"
  shows "fst (scheduleRule e rule s) = Returns ()
         \<and> map_of (cronJobs (snd (scheduleRule e rule s))) (rule_id rule) = None
         \<and> map_of (intervalJobs (snd (scheduleRule e rule s))) (rule_id rule) = None
         \<and> rules (snd (scheduleRule e rule s)) = rules s
         \<and> (timer_inv s \<longrightarrow> liveJobs (snd (scheduleRule e rule s)) (rule_id rule) = 0)"
proof -
  from assms(2) have ns: "\<not> (enabled rule \<and> schedulable e (trigger rule))"
    by (auto simp: schedulable_def)
  then have sb: "same_but_trace (unscheduleRule (rule_id rule) s) (snd (scheduleRule e rule s))"
    by (rule scheduleRule_idle)
  have c: "cronJobs (snd (scheduleRule e rule s)) = AList.delete (rule_id rule) (cronJobs s)"
    using same_but_trace_fields(2) [OF sb] by simp
  have i: "intervalJobs (snd (scheduleRule e rule s)) = AList.delete (rule_id rule) (intervalJobs s)"
    using same_but_trace_fields(3) [OF sb] by simp
  have l: "liveJobs (snd (scheduleRule e rule s)) (rule_id rule) = 0" if "timer_inv s"
    using liveJobs_schedule [OF that, of e rule] ns by simp
  from c i l show ?thesis by (simp add: delete_conv')
qed

theorem scheduleRule_malformed_witness:
  "fst (scheduleRule ex_env ex_rule_badcron ex_engine) = Returns ()
   \<and> liveJobs (snd (scheduleRule ex_env ex_rule_badcron ex_engine)) ''r1'' = 0
   \<and> liveJobs (snd (scheduleRule ex_env ex_rule_zero ex_engine)) ''r1'' = 0
   \<and> rules (snd (scheduleRule ex_env ex_rule_badcron ex_engine)) = [(''r1'', ex_rule)]"
proof -
  have a: "enabled ex_rule_badcron" "enabled ex_rule_zero"
    "rule_id ex_rule_badcron = ''r1''" "rule_id ex_rule_zero = ''r1''"
    "rules ex_engine = [(''r1'', ex_rule)]"
    by (simp_all add: ex_defs ex_defs3)
  have b: "(trigger_type (trigger ex_rule_badcron) = ''schedule''
            \<and> cron (trigger ex_rule_badcron) = Some ''every day''
            \<and> cron_schedule ex_env ''every day'' = Throws ConfigurationError)
         \<or> (trigger_type (trigger ex_rule_badcron) = ''threshold''
            \<and> checkInterval (trigger ex_rule_badcron) = Some 0)"
    by (simp add: ex_defs ex_defs3)
  have z: "(trigger_type (trigger ex_rule_zero) = ''schedule''
            \<and> cron (trigger ex_rule_zero) = Some ''every day''
            \<and> cron_schedule ex_env ''every day'' = Throws ConfigurationError)
         \<or> (trigger_type (trigger ex_rule_zero) = ''threshold''
            \<and> checkInterval (trigger ex_rule_zero) = Some 0)"
    by (simp add: ex_defs ex_defs3)
  from scheduleRule_malformed_trigger [OF a(1) b, of ex_engine]
    scheduleRule_malformed_trigger [OF a(2) z, of ex_engine]
    timer_inv_ex_engine a(3-5)
  show ?thesis by simp
qed

section \<open>The scheduler invariant\<close>

text \<open>
  Every operation of the engine keeps the job maps, the timer table and the rule map
  consistent (\<open>sched_inv\<close>), so the invariant holds in every reachable state.
\<close>

lemma set_update_cases:
  "kv \<in> set (AList.update k v al) \<Longrightarrow> kv = (k, v) \<or> kv \<in> set al"
  by (induction al) (auto split: if_splits)

lemma set_delete_subset: "set (AList.delete k al) \<subseteq> set al"
  by (auto simp: AList.delete_eq)

lemma handle_inv_subset:
  assumes inv: "handle_inv s"
    and sub: "set (cronJobs s') \<union> set (intervalJobs s') \<subseteq> set (cronJobs s) \<union> set (intervalJobs s)"
    and nh: "nextHandle s' = nextHandle s"
  shows "handle_inv s'"
proof -
  let ?A = "set (cronJobs s) \<union> set (intervalJobs s)"
  let ?B = "set (cronJobs s') \<union> set (intervalJobs s')"
  from inv have lt: "\<forall>x \<in> ?A. snd x < nextHandle s"
    and un: "\<forall>x \<in> ?A. \<forall>y \<in> ?A. snd x = snd y \<longrightarrow> fst x = fst y"
    unfolding handle_inv_def by blast+
  from lt sub have lt': "\<forall>x \<in> ?B. snd x < nextHandle s" by blast
  from un sub have un': "\<forall>x \<in> ?B. \<forall>y \<in> ?B. snd x = snd y \<longrightarrow> fst x = fst y"
    by (meson subsetD)
  from lt' un' show ?thesis unfolding handle_inv_def nh by blast
qed

lemma unique_owner_insert:
  fixes n :: nat
  assumes lt: "\<forall>x \<in> A. snd x < n"
    and un: "\<forall>x \<in> A. \<forall>y \<in> A. snd x = snd y \<longrightarrow> fst x = fst y"
    and sub: "B \<subseteq> insert (k, n) A"
  shows "(\<forall>x \<in> B. snd x < Suc n) \<and> (\<forall>x \<in> B. \<forall>y \<in> B. snd x = snd y \<longrightarrow> fst x = fst y)"
proof (intro conjI ballI impI)
  fix x assume "x \<in> B"
  with sub have "x = (k, n) \<or> x \<in> A" by blast
  then show "snd x < Suc n"
  proof
    assume "x = (k, n)"
    then show ?thesis by simp
  next
    assume "x \<in> A"
    with lt have "snd x < n" by blast
    then show ?thesis by simp
  qed
next
  fix x y assume x: "x \<in> B" and y: "y \<in> B" and eq: "snd x = snd y"
  from x sub have cx: "x = (k, n) \<or> x \<in> A" by blast
  from y sub have cy: "y = (k, n) \<or> y \<in> A" by blast
  show "fst x = fst y"
  proof (cases "x \<in> A")
    case xa: True
    show ?thesis
    proof (cases "y \<in> A")
      case True
      with xa eq un show ?thesis by blast
    next
      case False
      with cy have yk: "y = (k, n)" by blast
      from xa lt have "snd x < n" by blast
      with eq yk show ?thesis by simp
    qed
  next
    case False
    with cx have xk: "x = (k, n)" by blast
    show ?thesis
    proof (cases "y \<in> A")
      case True
      with lt have "snd y < n" by blast
      with eq xk show ?thesis by simp
    next
      case False
      with cy have "y = (k, n)" by blast
      with xk show ?thesis by simp
    qed
  qed
qed

lemma handle_inv_cong:
  "nextHandle s' = nextHandle s \<Longrightarrow> cronJobs s' = cronJobs s
    \<Longrightarrow> intervalJobs s' = intervalJobs s \<Longrightarrow> handle_inv s' = handle_inv s"
  by (simp add: handle_inv_def)

lemma handle_inv_unschedule:
  assumes "handle_inv s"
  shows "handle_inv (unscheduleRule rid s)"
proof -
  have "set (cronJobs (unscheduleRule rid s)) \<union> set (intervalJobs (unscheduleRule rid s))
      \<subseteq> set (cronJobs s) \<union> set (intervalJobs s)"
    using set_delete_subset [of rid "cronJobs s"] set_delete_subset [of rid "intervalJobs s"]
    by (simp add: le_supI1 le_supI2)
  with assms show ?thesis by (rule handle_inv_subset) simp
qed

lemma handle_inv_schedule:
  assumes "handle_inv s"
  shows "handle_inv (snd (scheduleRule e rule s))"
proof (cases "enabled rule \<and> schedulable e (trigger rule)")
  case False
  then have sb: "same_but_trace (unscheduleRule (rule_id rule) s) (snd (scheduleRule e rule s))"
    by (rule scheduleRule_idle)
  have "handle_inv (snd (scheduleRule e rule s)) = handle_inv (unscheduleRule (rule_id rule) s)"
    by (rule handle_inv_cong [OF same_but_trace_fields(5) [OF sb] same_but_trace_fields(2) [OF sb]
          same_but_trace_fields(3) [OF sb]])
  moreover have "handle_inv (unscheduleRule (rule_id rule) s)"
    using assms by (rule handle_inv_unschedule)
  ultimately show ?thesis by blast
next
  case True
  let ?rid = "rule_id rule"
  let ?u = "unscheduleRule ?rid s"
  let ?s' = "snd (scheduleRule e rule s)"
  let ?A = "set (cronJobs ?u) \<union> set (intervalJobs ?u)"
  let ?B = "set (cronJobs ?s') \<union> set (intervalJobs ?s')"
  have u: "handle_inv ?u" using assms by (rule handle_inv_unschedule)
  have nhu: "nextHandle ?u = nextHandle s" by simp
  from u have lt: "\<forall>x \<in> ?A. snd x < nextHandle s"
    unfolding handle_inv_def nhu by blast
  from u have un: "\<forall>x \<in> ?A. \<forall>y \<in> ?A. snd x = snd y \<longrightarrow> fst x = fst y"
    unfolding handle_inv_def by blast
  have cu: "cronJobs ?u = AList.delete ?rid (cronJobs s)"
    and iu: "intervalJobs ?u = AList.delete ?rid (intervalJobs s)"
    by simp_all
  from True scheduleRule_registers [of rule e s]
  have nh: "nextHandle ?s' = Suc (nextHandle s)"
    and maps: "(cronJobs ?s' = AList.update ?rid (nextHandle s) (AList.delete ?rid (cronJobs s))
           \<and> intervalJobs ?s' = AList.delete ?rid (intervalJobs s))
          \<or> (intervalJobs ?s' = AList.update ?rid (nextHandle s) (AList.delete ?rid (intervalJobs s))
           \<and> cronJobs ?s' = AList.delete ?rid (cronJobs s))"
    by blast+
  have sub: "?B \<subseteq> insert (?rid, nextHandle s) ?A"
  proof
    fix x assume x: "x \<in> ?B"
    from maps show "x \<in> insert (?rid, nextHandle s) ?A"
    proof
      assume m: "cronJobs ?s' = AList.update ?rid (nextHandle s) (AList.delete ?rid (cronJobs s))
           \<and> intervalJobs ?s' = AList.delete ?rid (intervalJobs s)"
      from x consider "x \<in> set (cronJobs ?s')" | "x \<in> set (intervalJobs ?s')" by blast
      then show ?thesis
      proof cases
        case 1
        with m have "x \<in> set (AList.update ?rid (nextHandle s) (AList.delete ?rid (cronJobs s)))"
          by simp
        then have "x = (?rid, nextHandle s) \<or> x \<in> set (AList.delete ?rid (cronJobs s))"
          by (rule set_update_cases)
        then show ?thesis unfolding cu iu by blast
      next
        case 2
        with m have "x \<in> set (AList.delete ?rid (intervalJobs s))" by simp
        then show ?thesis unfolding cu iu by blast
      qed
    next
      assume m: "intervalJobs ?s' = AList.update ?rid (nextHandle s) (AList.delete ?rid (intervalJobs s))
           \<and> cronJobs ?s' = AList.delete ?rid (cronJobs s)"
      from x consider "x \<in> set (cronJobs ?s')" | "x \<in> set (intervalJobs ?s')" by blast
      then show ?thesis
      proof cases
        case 2
        with m have "x \<in> set (AList.update ?rid (nextHandle s) (AList.delete ?rid (intervalJobs s)))"
          by simp
        then have "x = (?rid, nextHandle s) \<or> x \<in> set (AList.delete ?rid (intervalJobs s))"
          by (rule set_update_cases)
        then show ?thesis unfolding cu iu by blast
      next
        case 1
        with m have "x \<in> set (AList.delete ?rid (cronJobs s))" by simp
        then show ?thesis unfolding cu iu by blast
      qed
    qed
  qed
  from unique_owner_insert [OF lt un sub] show ?thesis
    by (simp only: handle_inv_def nh)
qed

lemma sched_inv_cong:
  "rules a = rules b \<Longrightarrow> timers a = timers b \<Longrightarrow> nextHandle a = nextHandle b
    \<Longrightarrow> cronJobs a = cronJobs b \<Longrightarrow> intervalJobs a = intervalJobs b
    \<Longrightarrow> sched_inv a = sched_inv b"
  by (simp add: sched_inv_def timer_inv_def handle_inv_def rule_inv_def)

lemma rule_inv_ids:
  assumes "rule_inv s" and "map_of (rules s) k = Some r"
  shows "rule_id r = k"
proof -
  from assms(2) have m: "(k, r) \<in> set (rules s)" by (rule map_of_SomeD)
  from assms(1) have "\<forall>kr \<in> set (rules s). rule_id (snd kr) = fst kr"
    unfolding rule_inv_def by blast
  from bspec [OF this m] show ?thesis by simp
qed

lemma rule_inv_owner:
  assumes "rule_inv s" and "t \<in> set (timers s)"
  shows "map_of (rules s) (jobRule (snd t)) \<noteq> None"
  using assms unfolding rule_inv_def by blast

lemma rule_inv_intro:
  assumes "distinct (map fst (rules s))"
    and "\<forall>kr \<in> set (rules s). rule_id (snd kr) = fst kr"
    and "\<forall>t \<in> set (timers s). map_of (rules s) (jobRule (snd t)) \<noteq> None"
  shows "rule_inv s"
  using assms unfolding rule_inv_def by blast

lemma rule_inv_update:
  assumes inv: "rule_inv s" and id: "rule_id r = k"
    and rs: "rules s' = AList.update k r (rules s)" and ts: "set (timers s') \<subseteq> set (timers s)"
  shows "rule_inv s'"
proof (rule rule_inv_intro)
  from inv have d: "distinct (map fst (rules s))"
    and ids: "\<forall>kr \<in> set (rules s). rule_id (snd kr) = fst kr"
    unfolding rule_inv_def by blast+
  show "distinct (map fst (rules s'))" using d by (simp add: rs distinct_update)
  show "\<forall>kr \<in> set (rules s'). rule_id (snd kr) = fst kr"
  proof
    fix kr assume "kr \<in> set (rules s')"
    then have "kr = (k, r) \<or> kr \<in> set (rules s)" unfolding rs by (rule set_update_cases)
    then show "rule_id (snd kr) = fst kr"
    proof
      assume "kr = (k, r)"
      with id show ?thesis by simp
    next
      assume "kr \<in> set (rules s)"
      with ids show ?thesis by (rule bspec)
    qed
  qed
  show "\<forall>t \<in> set (timers s'). map_of (rules s') (jobRule (snd t)) \<noteq> None"
  proof
    fix t assume "t \<in> set (timers s')"
    with ts have "t \<in> set (timers s)" by blast
    with inv have "map_of (rules s) (jobRule (snd t)) \<noteq> None" by (rule rule_inv_owner)
    then show "map_of (rules s') (jobRule (snd t)) \<noteq> None" by (simp add: rs update_conv')
  qed
qed

lemma rule_inv_shrink:
  assumes inv: "rule_inv s" and rs: "rules s' = rules s" and ts: "set (timers s') \<subseteq> set (timers s)"
  shows "rule_inv s'"
  unfolding rule_inv_def rs using inv [unfolded rule_inv_def] ts by (meson subsetD)

lemma sched_inv_parts:
  assumes "sched_inv s"
  shows "timer_inv s" "handle_inv s" "rule_inv s"
  using assms by (simp_all add: sched_inv_def)

lemma sched_inv_unschedule:
  assumes "sched_inv s"
  shows "sched_inv (unscheduleRule rid s)"
proof -
  note p = sched_inv_parts [OF assms]
  from p(1) have "timer_inv (unscheduleRule rid s)" by (rule timer_inv_unschedule)
  moreover from p(2) have "handle_inv (unscheduleRule rid s)" by (rule handle_inv_unschedule)
  moreover have "rule_inv (unscheduleRule rid s)"
    using p(3) unscheduleRule_fields(1) unschedule_subset by (rule rule_inv_shrink)
  ultimately show ?thesis by (simp add: sched_inv_def)
qed

lemma sched_inv_schedule:
  assumes inv: "sched_inv s"
    and own: "enabled rule \<longrightarrow> map_of (rules s) (rule_id rule) \<noteq> None"
  shows "sched_inv (snd (scheduleRule e rule s))"
proof -
  let ?s' = "snd (scheduleRule e rule s)"
  let ?u = "unscheduleRule (rule_id rule) s"
  note p = sched_inv_parts [OF inv]
  from p(1) have ti: "timer_inv ?s'" by (rule timer_inv_schedule)
  from p(2) have hi: "handle_inv ?s'" by (rule handle_inv_schedule)
  from inv have ru: "rule_inv ?u" using sched_inv_unschedule [of s] by (simp add: sched_inv_def)
  have "rule_inv ?s'"
  proof (cases "enabled rule \<and> schedulable e (trigger rule)")
    case False
    then have "same_but_trace ?u ?s'" by (rule scheduleRule_idle)
    then have "rules ?s' = rules ?u" "timers ?s' = timers ?u"
      by (rule same_but_trace_fields)+
    then have "rules ?s' = rules ?u" "set (timers ?s') \<subseteq> set (timers ?u)" by simp_all
    with ru show ?thesis by (rule rule_inv_shrink)
  next
    case True
    with scheduleRule_registers [of rule e s] obtain j where j: "jobRule j = rule_id rule"
      and tm: "timers ?s' = timers ?u @ [(nextHandle s, j)]"
      by blast
    from ru have d: "distinct (map fst (rules ?s'))"
      and ids: "\<forall>kr \<in> set (rules ?s'). rule_id (snd kr) = fst kr"
      unfolding rule_inv_def by simp_all
    have o: "\<forall>t \<in> set (timers ?s'). map_of (rules ?s') (jobRule (snd t)) \<noteq> None"
    proof
      fix t assume "t \<in> set (timers ?s')"
      then consider "t = (nextHandle s, j)" | "t \<in> set (timers ?u)" by (auto simp: tm)
      then show "map_of (rules ?s') (jobRule (snd t)) \<noteq> None"
      proof cases
        case 1
        with j True own show ?thesis by simp
      next
        case 2
        with ru have "map_of (rules ?u) (jobRule (snd t)) \<noteq> None" by (rule rule_inv_owner)
        then show ?thesis by simp
      qed
    qed
    from d ids o show ?thesis by (rule rule_inv_intro)
  qed
  with ti hi show ?thesis by (simp add: sched_inv_def)
qed

lemma sched_inv_rules_update:
  assumes inv: "sched_inv s" and id: "rule_id r = k"
    and rs: "rules s' = AList.update k r (rules s)" and ts: "timers s' = timers s"
    and nh: "nextHandle s' = nextHandle s" and cj: "cronJobs s' = cronJobs s"
    and ij: "intervalJobs s' = intervalJobs s"
  shows "sched_inv s'"
proof -
  note p = sched_inv_parts [OF inv]
  from ts have sub: "set (timers s') \<subseteq> set (timers s)" by simp
  from p have "timer_inv s'" "handle_inv s'" "rule_inv s'"
    using timer_inv_cong [OF ts nh cj ij] handle_inv_cong [OF nh cj ij]
      rule_inv_update [OF _ id rs sub] by simp_all
  then show ?thesis by (simp add: sched_inv_def)
qed

lemma sched_inv_save: "sched_inv (snd (saveRules e s)) = sched_inv s"
  by (rule sched_inv_cong) simp_all

lemma sched_inv_newEngine: "sched_inv (newEngine slack stored)"
  by (simp add: sched_inv_def timer_inv_def handle_inv_def rule_inv_def newEngine_def)

lemma no_owner_no_job:
  assumes "sched_inv s" and "map_of (rules s) k = None"
  shows "liveJobs s k = 0"
proof -
  from assms(1) have ri: "rule_inv s" by (rule sched_inv_parts)
  have "jobRule (snd t) \<noteq> k" if "t \<in> set (timers s)" for t
  proof
    assume "jobRule (snd t) = k"
    moreover from ri that have "map_of (rules s) (jobRule (snd t)) \<noteq> None" by (rule rule_inv_owner)
    ultimately show False using assms(2) by simp
  qed
  then show ?thesis by (simp add: liveJobs_zero_iff)
qed

lemma if_both: "P x \<Longrightarrow> P y \<Longrightarrow> P (if c then x else y)"
  by simp

lemma addRule_state:
  "snd (addRule e newId now ruleData s)
     = (if enabled ruleData
        then snd (scheduleRule e (ruleData\<lparr>rule_id := newId, createdAt := now\<rparr>)
               (snd (saveRules e
                  (s\<lparr>rules := AList.update newId (ruleData\<lparr>rule_id := newId, createdAt := now\<rparr>)
                       (rules s)\<rparr>))))
        else snd (saveRules e
               (s\<lparr>rules := AList.update newId (ruleData\<lparr>rule_id := newId, createdAt := now\<rparr>)
                    (rules s)\<rparr>)))"
  by (simp add: addRule_def Let_def andThen_returns [OF saveRules_returns]
      andThen_returns [OF scheduleRule_returns])

lemma toggleRule_state:
  assumes "map_of (rules s) rid = Some rule0"
  shows "snd (toggleRule e rid s)
     = (if \<not> enabled rule0
        then snd (scheduleRule e (rule0\<lparr>enabled := \<not> enabled rule0\<rparr>)
               (snd (saveRules e
                  (s\<lparr>rules := AList.update rid (rule0\<lparr>enabled := \<not> enabled rule0\<rparr>) (rules s)\<rparr>))))
        else unscheduleRule rid
               (snd (saveRules e
                  (s\<lparr>rules := AList.update rid (rule0\<lparr>enabled := \<not> enabled rule0\<rparr>) (rules s)\<rparr>))))"
  using assms by (simp add: toggleRule_def Let_def andThen_returns [OF saveRules_returns])

lemma removeRule_state:
  "snd (removeRule e rid s)
     = snd (saveRules e ((unscheduleRule rid s)\<lparr>rules := AList.delete rid (rules s)\<rparr>))"
  by (simp add: removeRule_def Let_def)

lemma sched_inv_addRule:
  assumes inv: "sched_inv s"
  shows "sched_inv (snd (addRule e newId now ruleData s))"
proof -
  let ?rule = "ruleData\<lparr>rule_id := newId, createdAt := now\<rparr>"
  let ?s1 = "s\<lparr>rules := AList.update newId ?rule (rules s)\<rparr>"
  let ?s2 = "snd (saveRules e ?s1)"
  have "sched_inv ?s1"
    by (rule sched_inv_rules_update [OF inv, of ?rule newId]) simp_all
  then have s2: "sched_inv ?s2" by (simp add: sched_inv_save)
  have own: "enabled ?rule \<longrightarrow> map_of (rules ?s2) (rule_id ?rule) \<noteq> None"
    by (simp add: update_conv')
  from s2 own have "sched_inv (snd (scheduleRule e ?rule ?s2))" by (rule sched_inv_schedule)
  then show ?thesis using s2 unfolding addRule_state by (rule if_both)
qed

lemma sched_inv_removeRule:
  assumes inv: "sched_inv s"
  shows "sched_inv (snd (removeRule e rid s))"
proof -
  let ?u = "unscheduleRule rid s"
  let ?d = "?u\<lparr>rules := AList.delete rid (rules s)\<rparr>"
  have u: "sched_inv ?u" using inv by (rule sched_inv_unschedule)
  note pu = sched_inv_parts [OF u]
  from inv have ti: "timer_inv s" by (rule sched_inv_parts)
  have td: "timer_inv ?d" using pu(1) timer_inv_cong [of ?d ?u] by simp
  have hd: "handle_inv ?d" using pu(2) handle_inv_cong [of ?d ?u] by simp
  from pu(3) have d: "distinct (map fst (rules ?d))" by (simp add: rule_inv_def distinct_delete)
  from pu(3) have ids0: "\<forall>kr \<in> set (rules s). rule_id (snd kr) = fst kr" by (simp add: rule_inv_def)
  have ids: "\<forall>kr \<in> set (rules ?d). rule_id (snd kr) = fst kr"
  proof
    fix kr assume "kr \<in> set (rules ?d)"
    then have "kr \<in> set (rules s)" using set_delete_subset [of rid "rules s"] by auto
    with ids0 show "rule_id (snd kr) = fst kr" by (rule bspec)
  qed
  have own: "\<forall>t \<in> set (timers ?d). map_of (rules ?d) (jobRule (snd t)) \<noteq> None"
  proof
    fix t assume "t \<in> set (timers ?d)"
    then have t: "t \<in> set (timers ?u)" by simp
    with ti have ne: "jobRule (snd t) \<noteq> rid" by (rule unschedule_clears)
    from pu(3) t have "map_of (rules ?u) (jobRule (snd t)) \<noteq> None" by (rule rule_inv_owner)
    with ne show "map_of (rules ?d) (jobRule (snd t)) \<noteq> None"
      by (simp add: delete_conv')
  qed
  from d ids own have "rule_inv ?d" by (rule rule_inv_intro)
  with td hd have "sched_inv ?d" by (simp add: sched_inv_def)
  then show ?thesis by (simp add: removeRule_state sched_inv_save)
qed

lemma sched_inv_toggleRule:
  assumes inv: "sched_inv s"
  shows "sched_inv (snd (toggleRule e rid s))"
proof (cases "map_of (rules s) rid")
  case None
  with inv show ?thesis by (simp add: toggleRule_def)
next
  case (Some rule0)
  let ?rule = "rule0\<lparr>enabled := \<not> enabled rule0\<rparr>"
  let ?s1 = "s\<lparr>rules := AList.update rid ?rule (rules s)\<rparr>"
  let ?s2 = "snd (saveRules e ?s1)"
  from inv have ri: "rule_inv s" by (rule sched_inv_parts)
  have id: "rule_id ?rule = rid" using rule_inv_ids [OF ri Some] by simp
  have "sched_inv ?s1"
    by (rule sched_inv_rules_update [OF inv id]) simp_all
  then have s2: "sched_inv ?s2" by (simp add: sched_inv_save)
  have "enabled ?rule \<longrightarrow> map_of (rules ?s2) (rule_id ?rule) \<noteq> None"
    using id by (simp add: update_conv')
  with s2 have a: "sched_inv (snd (scheduleRule e ?rule ?s2))" by (rule sched_inv_schedule)
  from s2 have b: "sched_inv (unscheduleRule rid ?s2)" by (rule sched_inv_unschedule)
  from a b show ?thesis unfolding toggleRule_state [OF Some] by (rule if_both)
qed

lemma executeRule_effect:
  "timers (snd (executeRule e now rule s)) = timers s
    \<and> cronJobs (snd (executeRule e now rule s)) = cronJobs s
    \<and> intervalJobs (snd (executeRule e now rule s)) = intervalJobs s
    \<and> nextHandle (snd (executeRule e now rule s)) = nextHandle s
    \<and> (rules (snd (executeRule e now rule s)) = rules s
       \<or> rules (snd (executeRule e now rule s))
           = AList.update (rule_id rule) (rule\<lparr>lastRunAt := Some now\<rparr>) (rules s))"
proof (cases "getCampaigns e (accountId rule)")
  case (Throws err)
  then show ?thesis by (simp add: executeRule_def logError_def)
next
  case (Returns campaigns)
    obtain triggered s1 where tr:
      "triggeredCampaigns e rule (filter (matchesConditions e rule) campaigns) s = (triggered, s1)"
      by (cases "triggeredCampaigns e rule (filter (matchesConditions e rule) campaigns) s")
    obtain r s2 where cl: "campaignLoop e rule triggered s1 = (r, s2)"
      by (cases "campaignLoop e rule triggered s1")
    have "same_but_trace s s1"
      using triggeredCampaigns_frame [of s e rule "filter (matchesConditions e rule) campaigns"] tr
      by simp
    moreover have "same_but_trace s1 s2"
      using campaignLoop_frame [of s1 e rule triggered] cl by simp
    ultimately have sb: "same_but_trace s s2" by (rule same_but_trace_trans)
    note f = same_but_trace_fields [OF sb]
    show ?thesis
    proof (cases r)
      case (Throws err)
      with Returns tr cl f show ?thesis by (simp add: executeRule_def logError_def)
    next
      case Ret: (Returns u)
      with Returns tr cl f show ?thesis by (simp add: executeRule_def)
    qed
qed

lemma sched_inv_executeRule:
  assumes inv: "sched_inv s"
  shows "sched_inv (snd (executeRule e now rule s))"
proof -
  let ?s' = "snd (executeRule e now rule s)"
  note eff = executeRule_effect [of e now rule s]
  from eff have ts: "timers ?s' = timers s" and cj: "cronJobs ?s' = cronJobs s"
    and ij: "intervalJobs ?s' = intervalJobs s" and nh: "nextHandle ?s' = nextHandle s"
    by blast+
  from eff have "rules ?s' = rules s
    \<or> rules ?s' = AList.update (rule_id rule) (rule\<lparr>lastRunAt := Some now\<rparr>) (rules s)"
    by blast
  then show ?thesis
  proof
    assume "rules ?s' = rules s"
    then have "sched_inv ?s' = sched_inv s" using ts nh cj ij by (rule sched_inv_cong)
    with inv show ?thesis by simp
  next
    assume rs: "rules ?s' = AList.update (rule_id rule) (rule\<lparr>lastRunAt := Some now\<rparr>) (rules s)"
    have id: "rule_id (rule\<lparr>lastRunAt := Some now\<rparr>) = rule_id rule" by simp
    from inv id rs ts nh cj ij show ?thesis by (rule sched_inv_rules_update)
  qed
qed

lemma sched_inv_runRule:
  assumes inv: "sched_inv s"
  shows "sched_inv (snd (runRule e now rid s))"
  using inv by (cases "map_of (rules s) rid") (simp_all add: runRule_def sched_inv_executeRule)

lemma stop_timers:
  assumes "timer_inv s"
  shows "timers (snd (stop s)) = []"
proof -
  have "fst t \<in> snd ` set (cronJobs s) \<or> fst t \<in> snd ` set (intervalJobs s)"
    if t: "t \<in> set (timers s)" for t
  proof -
    from assms t have "map_of (cronJobs s) (jobRule (snd t)) = Some (fst t)
      \<or> map_of (intervalJobs s) (jobRule (snd t)) = Some (fst t)"
      unfolding timer_inv_def by blast
    then show ?thesis
    proof
      assume "map_of (cronJobs s) (jobRule (snd t)) = Some (fst t)"
      then have "(jobRule (snd t), fst t) \<in> set (cronJobs s)" by (rule map_of_SomeD)
      then have "snd (jobRule (snd t), fst t) \<in> snd ` set (cronJobs s)" by (rule imageI)
      then show ?thesis by simp
    next
      assume "map_of (intervalJobs s) (jobRule (snd t)) = Some (fst t)"
      then have "(jobRule (snd t), fst t) \<in> set (intervalJobs s)" by (rule map_of_SomeD)
      then have "snd (jobRule (snd t), fst t) \<in> snd ` set (intervalJobs s)" by (rule imageI)
      then show ?thesis by simp
    qed
  qed
  then show ?thesis by (simp add: stop_def filter_empty_conv)
qed

lemma sched_inv_stop:
  assumes inv: "sched_inv s"
  shows "sched_inv (snd (stop s))"
proof -
  note p = sched_inv_parts [OF inv]
  have t: "timers (snd (stop s)) = []" using p(1) by (rule stop_timers)
  have f: "rules (snd (stop s)) = rules s" "cronJobs (snd (stop s)) = []"
    "intervalJobs (snd (stop s)) = []"
    by (simp_all add: stop_def)
  from p(3) t f show ?thesis
    by (simp add: sched_inv_def timer_inv_def handle_inv_def rule_inv_def)
qed

lemma fold_update_keys:
  assumes "distinct (map fst al)" and "\<forall>kr \<in> set al. rule_id (snd kr) = fst kr"
  shows "distinct (map fst (fold (\<lambda>r al. AList.update (rule_id r) r al) rs al))
    \<and> (\<forall>kr \<in> set (fold (\<lambda>r al. AList.update (rule_id r) r al) rs al). rule_id (snd kr) = fst kr)"
  using assms
proof (induction rs arbitrary: al)
  case Nil
  then show ?case by simp
next
  case (Cons r rs)
  have d: "distinct (map fst (AList.update (rule_id r) r al))"
    using Cons.prems(1) by (simp add: distinct_update)
  have i: "\<forall>kr \<in> set (AList.update (rule_id r) r al). rule_id (snd kr) = fst kr"
  proof
    fix kr assume "kr \<in> set (AList.update (rule_id r) r al)"
    then have "kr = (rule_id r, r) \<or> kr \<in> set al" by (rule set_update_cases)
    then show "rule_id (snd kr) = fst kr"
    proof
      assume "kr = (rule_id r, r)"
      then show ?thesis by simp
    next
      assume "kr \<in> set al"
      with Cons.prems(2) show ?thesis by (rule bspec)
    qed
  qed
  from Cons.IH [OF d i] show ?case by simp
qed

lemma fold_update_dom:
  "map_of al k \<noteq> None
    \<Longrightarrow> map_of (fold (\<lambda>r al. AList.update (rule_id r) r al) rs al) k \<noteq> None"
proof (induction rs arbitrary: al)
  case Nil
  then show ?case by simp
next
  case (Cons r rs)
  from Cons.prems have "map_of (AList.update (rule_id r) r al) k \<noteq> None"
    by (simp add: update_conv')
  then show ?case using Cons.IH by simp
qed

lemma loadRules_fields [simp]:
  "timers (loadRules s) = timers s" "cronJobs (loadRules s) = cronJobs s"
  "intervalJobs (loadRules s) = intervalJobs s" "nextHandle (loadRules s) = nextHandle s"
  by (simp_all add: loadRules_def logError_def split: store_file.split)

lemma loadRules_rules:
  "rules (loadRules s) = rules s
   \<or> (\<exists>rs. rules (loadRules s) = fold (\<lambda>r al. AList.update (rule_id r) r al) rs (rules s))"
  by (cases "disk s") (auto simp: loadRules_def logError_def)

lemma sched_inv_loadRules:
  assumes inv: "sched_inv s"
  shows "sched_inv (loadRules s)"
proof -
  let ?l = "loadRules s"
  note p = sched_inv_parts [OF inv]
  have ti: "timer_inv ?l" using p(1) timer_inv_cong [of ?l s] by simp
  have hi: "handle_inv ?l" using p(2) handle_inv_cong [of ?l s] by simp
  from loadRules_rules [of s] have "rule_inv ?l"
  proof
    assume "rules ?l = rules s"
    with p(3) show ?thesis by (rule rule_inv_shrink) simp
  next
    assume "\<exists>rs. rules ?l = fold (\<lambda>r al. AList.update (rule_id r) r al) rs (rules s)"
    then obtain rs where rs: "rules ?l = fold (\<lambda>r al. AList.update (rule_id r) r al) rs (rules s)"
      by blast
    from p(3) have d: "distinct (map fst (rules s))"
      and ids: "\<forall>kr \<in> set (rules s). rule_id (snd kr) = fst kr"
      unfolding rule_inv_def by blast+
    from fold_update_keys [OF d ids, of rs]
    have d': "distinct (map fst (rules ?l))"
      and ids': "\<forall>kr \<in> set (rules ?l). rule_id (snd kr) = fst kr"
      unfolding rs by blast+
    have own: "\<forall>t \<in> set (timers ?l). map_of (rules ?l) (jobRule (snd t)) \<noteq> None"
    proof
      fix t assume "t \<in> set (timers ?l)"
      then have "t \<in> set (timers s)" by simp
      with p(3) have "map_of (rules s) (jobRule (snd t)) \<noteq> None" by (rule rule_inv_owner)
      then show "map_of (rules ?l) (jobRule (snd t)) \<noteq> None"
        unfolding rs by (rule fold_update_dom)
    qed
    from d' ids' own show ?thesis by (rule rule_inv_intro)
  qed
  with ti hi show ?thesis by (simp add: sched_inv_def)
qed

lemma scheduleEach_rules [simp]: "rules (snd (scheduleEach e rs s)) = rules s"
  by (induction rs arbitrary: s) (simp_all add: andThen_returns [OF scheduleRule_returns])

lemma sched_inv_scheduleEach:
  assumes "sched_inv s" and "\<forall>r \<in> set rs. map_of (rules s) (rule_id r) \<noteq> None"
  shows "sched_inv (snd (scheduleEach e rs s))"
  using assms
proof (induction rs arbitrary: s)
  case Nil
  then show ?case by simp
next
  case (Cons r rs)
  show ?case
  proof (cases "enabled r")
    case True
    from Cons.prems have "enabled r \<longrightarrow> map_of (rules s) (rule_id r) \<noteq> None" by simp
    with Cons.prems(1) have i: "sched_inv (snd (scheduleRule e r s))" by (rule sched_inv_schedule)
    from Cons.prems(2)
    have "\<forall>r' \<in> set rs. map_of (rules (snd (scheduleRule e r s))) (rule_id r') \<noteq> None"
      by simp
    with i have "sched_inv (snd (scheduleEach e rs (snd (scheduleRule e r s))))" by (rule Cons.IH)
    with True show ?thesis by (simp add: andThen_returns [OF scheduleRule_returns])
  next
    case False
    from Cons.prems have "sched_inv (snd (scheduleEach e rs s))" by (intro Cons.IH) simp_all
    with False show ?thesis by simp
  qed
qed

lemma stored_rules:
  assumes ri: "rule_inv s" and r: "r \<in> set (map snd (rules s))"
  shows "map_of (rules s) (rule_id r) = Some r"
proof -
  from r obtain k where kr: "(k, r) \<in> set (rules s)" by auto
  from ri have d: "distinct (map fst (rules s))"
    and ids: "\<forall>kr \<in> set (rules s). rule_id (snd kr) = fst kr"
    unfolding rule_inv_def by blast+
  from bspec [OF ids kr] have "rule_id r = k" by simp
  moreover from d kr have "map_of (rules s) k = Some r" by (rule map_of_is_SomeI)
  ultimately show ?thesis by simp
qed

lemma sched_inv_start:
  assumes inv: "sched_inv s"
  shows "sched_inv (snd (start e s))"
proof -
  let ?l = "loadRules s"
  have l: "sched_inv ?l" using inv by (rule sched_inv_loadRules)
  then have ri: "rule_inv ?l" by (rule sched_inv_parts)
  have "\<forall>r \<in> set (map snd (rules ?l)). map_of (rules ?l) (rule_id r) \<noteq> None"
    using stored_rules [OF ri] by simp
  with l have "sched_inv (snd (scheduleEach e (map snd (rules ?l)) ?l))"
    by (rule sched_inv_scheduleEach)
  then show ?thesis by (simp add: start_def scheduleAllRules_def)
qed

lemma reachable_sched_inv: "reachable s \<Longrightarrow> sched_inv s"
proof (induction rule: reachable.induct)
  case (created slack stored)
  show ?case by (rule sched_inv_newEngine)
next
  case (started s e)
  then show ?case by (intro sched_inv_start)
next
  case (added s e newId now ruleData)
  then show ?case by (intro sched_inv_addRule)
next
  case (removed s e ruleId)
  then show ?case by (intro sched_inv_removeRule)
next
  case (toggled s e ruleId)
  then show ?case by (intro sched_inv_toggleRule)
next
  case (ran s e now ruleId)
  then show ?case by (intro sched_inv_runRule)
next
  case (fired s t rule e now)
  then show ?case by (intro sched_inv_executeRule)
next
  case (stopped s)
  then show ?case by (intro sched_inv_stop)
qed

section \<open>The scheduler in step with the rules\<close>

text \<open>
  \<open>addRule\<close> under an unused id, \<open>removeRule\<close>, \<open>toggleRule\<close> and \<open>runRule\<close> keep the
  scheduler in step with the rules, and \<open>start\<close> brings it in step if no rule that is
  disabled after loading has a live job. So the scheduler is in step while the engine
  is running.
\<close>

lemma schedulable_cong:
  "cron_schedule e = cron_schedule e0 \<Longrightarrow> schedulable e t = schedulable e0 t"
  unfolding schedulable_def by (erule subst) (rule refl)

lemma in_stepD:
  assumes "in_step e0 s" and "map_of (rules s) k = Some r"
  shows "liveJobs s k = (if enabled r \<and> schedulable e0 (trigger r) then 1 else 0)"
proof -
  from assms(2) have "(k, r) \<in> set (rules s)" by (rule map_of_SomeD)
  with assms(1) have "liveJobs s (fst (k, r))
      = (if enabled (snd (k, r)) \<and> schedulable e0 (trigger (snd (k, r))) then 1 else 0)"
    unfolding in_step_def by (rule bspec)
  then show ?thesis by simp
qed

lemma in_stepI:
  assumes d: "distinct (map fst (rules s))"
    and step: "\<And>k r. map_of (rules s) k = Some r
      \<Longrightarrow> liveJobs s k = (if enabled r \<and> schedulable e0 (trigger r) then 1 else 0)"
  shows "in_step e0 s"
  unfolding in_step_def
proof
  fix kr assume "kr \<in> set (rules s)"
  then have "(fst kr, snd kr) \<in> set (rules s)" by simp
  with d have "map_of (rules s) (fst kr) = Some (snd kr)" by (rule map_of_is_SomeI)
  then show "liveJobs s (fst kr)
      = (if enabled (snd kr) \<and> schedulable e0 (trigger (snd kr)) then 1 else 0)"
    by (rule step)
qed

lemma liveJobs_unschedule_other:
  assumes ti: "timer_inv s" and hi: "handle_inv s" and ne: "k \<noteq> rid"
  shows "liveJobs (unscheduleRule rid s) k = liveJobs s k"
proof -
  let ?A = "set (cronJobs s) \<union> set (intervalJobs s)"
  from hi have un: "\<forall>x \<in> ?A. \<forall>y \<in> ?A. snd x = snd y \<longrightarrow> fst x = fst y"
    unfolding handle_inv_def by blast
  have keep: "map_of (cronJobs s) rid \<noteq> Some (fst t) \<and> map_of (intervalJobs s) rid \<noteq> Some (fst t)"
    if t: "t \<in> set (timers s)" and k: "jobRule (snd t) = k" for t
  proof -
    from ti t have "map_of (cronJobs s) (jobRule (snd t)) = Some (fst t)
        \<or> map_of (intervalJobs s) (jobRule (snd t)) = Some (fst t)"
      unfolding timer_inv_def by blast
    with k have "map_of (cronJobs s) k = Some (fst t) \<or> map_of (intervalJobs s) k = Some (fst t)"
      by simp
    then have kA: "(k, fst t) \<in> ?A" by (auto dest: map_of_SomeD)
    have "(rid, fst t) \<notin> ?A"
    proof
      assume rA: "(rid, fst t) \<in> ?A"
      have "snd (rid, fst t) = snd (k, fst t)" by simp
      with bspec [OF bspec [OF un rA] kA] have "fst (rid, fst t) = fst (k, fst t)" by (rule mp)
      with ne show False by simp
    qed
    then show ?thesis by (auto dest: map_of_SomeD)
  qed
  have "filter (\<lambda>t. jobRule (snd t) = k) (timers (unscheduleRule rid s))
      = filter (\<lambda>t. jobRule (snd t) = k) (timers s)"
    unfolding unscheduleRule_timers filter_filter
    by (rule filter_cong [OF refl]) (use keep in blast)
  then show ?thesis by (simp add: liveJobs_def)
qed

lemma liveJobs_schedule_other:
  assumes ti: "timer_inv s" and hi: "handle_inv s" and ne: "k \<noteq> rule_id rule"
  shows "liveJobs (snd (scheduleRule e rule s)) k = liveJobs s k"
proof (cases "enabled rule \<and> schedulable e (trigger rule)")
  case False
  then have "same_but_trace (unscheduleRule (rule_id rule) s) (snd (scheduleRule e rule s))"
    by (rule scheduleRule_idle)
  then have "liveJobs (snd (scheduleRule e rule s)) k = liveJobs (unscheduleRule (rule_id rule) s) k"
    by (intro liveJobs_cong same_but_trace_fields)
  with liveJobs_unschedule_other [OF ti hi ne] show ?thesis by simp
next
  case True
  with scheduleRule_registers [of rule e s] obtain j where j: "jobRule j = rule_id rule"
    and tm: "timers (snd (scheduleRule e rule s))
               = timers (unscheduleRule (rule_id rule) s) @ [(nextHandle s, j)]"
    by blast
  from j ne have "liveJobs (snd (scheduleRule e rule s)) k = liveJobs (unscheduleRule (rule_id rule) s) k"
    by (simp add: liveJobs_def tm)
  with liveJobs_unschedule_other [OF ti hi ne] show ?thesis by simp
qed

lemma toggle_effect:
  assumes ti: "timer_inv s" and m: "map_of (rules s) rid = Some r" and id: "rule_id r = rid"
  shows "rules (snd (toggleRule e rid s)) = AList.update rid (r\<lparr>enabled := \<not> enabled r\<rparr>) (rules s)
    \<and> timer_inv (snd (toggleRule e rid s))
    \<and> liveJobs (snd (toggleRule e rid s)) rid
        = (if \<not> enabled r \<and> schedulable e (trigger r) then 1 else 0)"
proof -
  let ?rule = "r\<lparr>enabled := \<not> enabled r\<rparr>"
  let ?s2 = "snd (saveRules e (s\<lparr>rules := AList.update rid ?rule (rules s)\<rparr>))"
  have res: "snd (toggleRule e rid s)
      = (if enabled ?rule then snd (scheduleRule e ?rule ?s2) else unscheduleRule rid ?s2)"
    using m by (simp add: toggleRule_def Let_def andThen_returns [OF saveRules_returns])
  have t2: "timer_inv ?s2" using ti timer_inv_cong [of ?s2 s] by simp
  have id': "rule_id ?rule = rid" using id by simp
  show ?thesis
  proof (cases "enabled r")
    case True
    with res have "snd (toggleRule e rid s) = unscheduleRule rid ?s2" by simp
    with True t2 show ?thesis
      by (simp add: timer_inv_unschedule liveJobs_unschedule)
  next
    case False
    with res have eq: "snd (toggleRule e rid s) = snd (scheduleRule e ?rule ?s2)" by simp
    from liveJobs_schedule [OF t2, of e ?rule] id' False
    have "liveJobs (snd (scheduleRule e ?rule ?s2)) rid = (if schedulable e (trigger r) then 1 else 0)"
      by simp
    with eq False t2 show ?thesis by (simp add: timer_inv_schedule)
  qed
qed

lemma saved_update_invs:
  assumes "sched_inv s"
  shows "timer_inv (snd (saveRules e (s\<lparr>rules := al\<rparr>)))"
    "handle_inv (snd (saveRules e (s\<lparr>rules := al\<rparr>)))"
    "liveJobs (snd (saveRules e (s\<lparr>rules := al\<rparr>))) k = liveJobs s k"
proof -
  note p = sched_inv_parts [OF assms]
  let ?s2 = "snd (saveRules e (s\<lparr>rules := al\<rparr>))"
  show "timer_inv ?s2" using p(1) timer_inv_cong [of ?s2 s] by simp
  show "handle_inv ?s2" using p(2) handle_inv_cong [of ?s2 s] by simp
  show "liveJobs ?s2 k = liveJobs s k" by (simp add: liveJobs_def)
qed

lemma in_step_addRule:
  assumes inv: "sched_inv s" and st: "in_step e0 s"
    and cv: "cron_schedule e = cron_schedule e0" and fresh: "map_of (rules s) newId = None"
  shows "in_step e0 (snd (addRule e newId now ruleData s))"
proof (rule in_stepI)
  let ?rule = "ruleData\<lparr>rule_id := newId, createdAt := now\<rparr>"
  let ?s2 = "snd (saveRules e (s\<lparr>rules := AList.update newId ?rule (rules s)\<rparr>))"
  let ?s' = "snd (addRule e newId now ruleData s)"
  note s2 = saved_update_invs [OF inv, of e "AList.update newId ?rule (rules s)"]
  have "sched_inv ?s'" using inv by (rule sched_inv_addRule)
  then have "rule_inv ?s'" by (rule sched_inv_parts)
  then show "distinct (map fst (rules ?s'))" unfolding rule_inv_def by blast
  fix k r assume m: "map_of (rules ?s') k = Some r"
  have sc: "schedulable e (trigger r) = schedulable e0 (trigger r)"
    using cv by (rule schedulable_cong)
  show "liveJobs ?s' k = (if enabled r \<and> schedulable e0 (trigger r) then 1 else 0)"
  proof (cases "k = newId")
    case True
    with m have r: "r = ?rule" by (simp add: update_conv')
    show ?thesis
    proof (cases "enabled ruleData")
      case en: True
      then have "?s' = snd (scheduleRule e ?rule ?s2)" by (simp add: addRule_state)
      moreover have "liveJobs (snd (scheduleRule e ?rule ?s2)) (rule_id ?rule)
          = (if enabled ?rule \<and> schedulable e (trigger ?rule) then 1 else 0)"
        using s2(1) by (rule liveJobs_schedule)
      ultimately show ?thesis using True r sc by simp
    next
      case False
      then have "?s' = ?s2" by (simp add: addRule_state)
      moreover have "liveJobs s newId = 0" using inv fresh by (rule no_owner_no_job)
      ultimately show ?thesis using True r False s2(3) by simp
    qed
  next
    case False
    with m have m0: "map_of (rules s) k = Some r" by (simp add: update_conv')
    have "liveJobs ?s' k = liveJobs ?s2 k"
    proof (cases "enabled ruleData")
      case True
      then have "?s' = snd (scheduleRule e ?rule ?s2)" by (simp add: addRule_state)
      moreover have "liveJobs (snd (scheduleRule e ?rule ?s2)) k = liveJobs ?s2 k"
        using s2(1,2) False by (intro liveJobs_schedule_other) simp_all
      ultimately show ?thesis by simp
    next
      case False
      then show ?thesis by (simp add: addRule_state)
    qed
    with s2(3) in_stepD [OF st m0] show ?thesis by simp
  qed
qed

lemma in_step_removeRule:
  assumes inv: "sched_inv s" and st: "in_step e0 s"
  shows "in_step e0 (snd (removeRule e rid s))"
proof (rule in_stepI)
  let ?s' = "snd (removeRule e rid s)"
  note p = sched_inv_parts [OF inv]
  have "sched_inv ?s'" using inv by (rule sched_inv_removeRule)
  then have "rule_inv ?s'" by (rule sched_inv_parts)
  then show "distinct (map fst (rules ?s'))" unfolding rule_inv_def by blast
  fix k r assume m: "map_of (rules ?s') k = Some r"
  then have m': "((map_of (rules s))(rid := None)) k = Some r"
    by (simp add: removeRule_state delete_conv')
  then have ne: "k \<noteq> rid" by (cases "k = rid") simp_all
  with m' have m0: "map_of (rules s) k = Some r" by simp
  have "liveJobs ?s' k = liveJobs (unscheduleRule rid s) k"
    by (simp add: removeRule_state liveJobs_def)
  with liveJobs_unschedule_other [OF p(1,2) ne] in_stepD [OF st m0]
  show "liveJobs ?s' k = (if enabled r \<and> schedulable e0 (trigger r) then 1 else 0)" by simp
qed

lemma in_step_toggleRule:
  assumes inv: "sched_inv s" and st: "in_step e0 s" and cv: "cron_schedule e = cron_schedule e0"
  shows "in_step e0 (snd (toggleRule e rid s))"
proof (cases "map_of (rules s) rid")
  case None
  with st show ?thesis by (simp add: toggleRule_def)
next
  case (Some rule0)
  let ?rule = "rule0\<lparr>enabled := \<not> enabled rule0\<rparr>"
  let ?s2 = "snd (saveRules e (s\<lparr>rules := AList.update rid ?rule (rules s)\<rparr>))"
  let ?s' = "snd (toggleRule e rid s)"
  note p = sched_inv_parts [OF inv]
  note s2 = saved_update_invs [OF inv, of e "AList.update rid ?rule (rules s)"]
  have id: "rule_id rule0 = rid" using p(3) Some by (rule rule_inv_ids)
  from toggle_effect [OF p(1) Some id, of e]
  have rs: "rules ?s' = AList.update rid ?rule (rules s)"
    and lj: "liveJobs ?s' rid = (if \<not> enabled rule0 \<and> schedulable e (trigger rule0) then 1 else 0)"
    by blast+
  show ?thesis
  proof (rule in_stepI)
    have "sched_inv ?s'" using inv by (rule sched_inv_toggleRule)
    then have "rule_inv ?s'" by (rule sched_inv_parts)
    then show "distinct (map fst (rules ?s'))" unfolding rule_inv_def by blast
    fix k r assume m: "map_of (rules ?s') k = Some r"
    show "liveJobs ?s' k = (if enabled r \<and> schedulable e0 (trigger r) then 1 else 0)"
    proof (cases "k = rid")
      case True
      with m have r: "r = ?rule" by (simp add: rs update_conv')
      have "schedulable e (trigger rule0) = schedulable e0 (trigger rule0)"
        using cv by (rule schedulable_cong)
      with lj True r show ?thesis by simp
    next
      case False
      with m have m0: "map_of (rules s) k = Some r" by (simp add: rs update_conv')
      have "liveJobs ?s' k = liveJobs ?s2 k"
      proof (cases "enabled rule0")
        case True
        then have "?s' = unscheduleRule rid ?s2" by (simp add: toggleRule_state [OF Some])
        with liveJobs_unschedule_other [OF s2(1,2) False] show ?thesis by simp
      next
        case dis: False
        then have "?s' = snd (scheduleRule e ?rule ?s2)" by (simp add: toggleRule_state [OF Some])
        moreover have "liveJobs (snd (scheduleRule e ?rule ?s2)) k = liveJobs ?s2 k"
          using s2(1,2) False id by (intro liveJobs_schedule_other) simp_all
        ultimately show ?thesis by simp
      qed
      with s2(3) in_stepD [OF st m0] show ?thesis by simp
    qed
  qed
qed

lemma in_step_runRule:
  assumes inv: "sched_inv s" and st: "in_step e0 s"
  shows "in_step e0 (snd (runRule e now rid s))"
proof (cases "map_of (rules s) rid")
  case None
  with st show ?thesis by (simp add: runRule_def)
next
  case (Some rule)
  let ?s' = "snd (executeRule e now rule s)"
  note p = sched_inv_parts [OF inv]
  have id: "rule_id rule = rid" using p(3) Some by (rule rule_inv_ids)
  note eff = executeRule_effect [of e now rule s]
  from eff have ts: "timers ?s' = timers s" by blast
  from eff have rs: "rules ?s' = rules s
    \<or> rules ?s' = AList.update rid (rule\<lparr>lastRunAt := Some now\<rparr>) (rules s)"
    unfolding id by blast
  have lj: "liveJobs ?s' k = liveJobs s k" for k by (simp add: liveJobs_def ts)
  have "in_step e0 ?s'"
  proof (rule in_stepI)
    have "sched_inv ?s'" using inv by (rule sched_inv_executeRule)
    then have "rule_inv ?s'" by (rule sched_inv_parts)
    then show "distinct (map fst (rules ?s'))" unfolding rule_inv_def by blast
    fix k r assume m: "map_of (rules ?s') k = Some r"
    from rs have "\<exists>r0. map_of (rules s) k = Some r0 \<and> enabled r0 = enabled r \<and> trigger r0 = trigger r"
    proof
      assume "rules ?s' = rules s"
      with m show ?thesis by simp
    next
      assume u: "rules ?s' = AList.update rid (rule\<lparr>lastRunAt := Some now\<rparr>) (rules s)"
      show ?thesis
      proof (cases "k = rid")
        case True
        with m u have "r = rule\<lparr>lastRunAt := Some now\<rparr>" by (simp add: update_conv')
        with True Some show ?thesis by simp
      next
        case False
        with m u show ?thesis by (simp add: update_conv')
      qed
    qed
    then obtain r0 where "map_of (rules s) k = Some r0" "enabled r0 = enabled r" "trigger r0 = trigger r"
      by blast
    with in_stepD [OF st this(1)] lj [of k]
    show "liveJobs ?s' k = (if enabled r \<and> schedulable e0 (trigger r) then 1 else 0)" by simp
  qed
  with Some show ?thesis by (simp add: runRule_def)
qed

lemma scheduleEach_invs:
  assumes "timer_inv s" and "handle_inv s"
  shows "timer_inv (snd (scheduleEach e rs s)) \<and> handle_inv (snd (scheduleEach e rs s))"
  using assms
proof (induction rs arbitrary: s)
  case Nil
  then show ?case by simp
next
  case (Cons r rs)
  show ?case
  proof (cases "enabled r")
    case True
    have "timer_inv (snd (scheduleRule e r s))" using Cons.prems(1) by (rule timer_inv_schedule)
    moreover have "handle_inv (snd (scheduleRule e r s))"
      using Cons.prems(2) by (rule handle_inv_schedule)
    ultimately have "timer_inv (snd (scheduleEach e rs (snd (scheduleRule e r s))))
      \<and> handle_inv (snd (scheduleEach e rs (snd (scheduleRule e r s))))"
      by (rule Cons.IH)
    with True show ?thesis by (simp add: andThen_returns [OF scheduleRule_returns])
  next
    case False
    with Cons.IH [OF Cons.prems] show ?thesis by simp
  qed
qed

lemma scheduleEach_other:
  assumes "timer_inv s" and "handle_inv s"
    and "\<forall>r \<in> set rs. enabled r \<longrightarrow> rule_id r \<noteq> k"
  shows "liveJobs (snd (scheduleEach e rs s)) k = liveJobs s k"
  using assms
proof (induction rs arbitrary: s)
  case Nil
  then show ?case by simp
next
  case (Cons r rs)
  from Cons.prems(3) have rest: "\<forall>r' \<in> set rs. enabled r' \<longrightarrow> rule_id r' \<noteq> k" by simp
  show ?case
  proof (cases "enabled r")
    case True
    with Cons.prems(3) have ne: "k \<noteq> rule_id r" by auto
    have t: "timer_inv (snd (scheduleRule e r s))" using Cons.prems(1) by (rule timer_inv_schedule)
    have h: "handle_inv (snd (scheduleRule e r s))"
      using Cons.prems(2) by (rule handle_inv_schedule)
    have "liveJobs (snd (scheduleEach e rs (snd (scheduleRule e r s)))) k
        = liveJobs (snd (scheduleRule e r s)) k"
      using t h rest by (rule Cons.IH)
    also have "\<dots> = liveJobs s k"
      using Cons.prems(1,2) ne by (rule liveJobs_schedule_other)
    finally show ?thesis using True by (simp add: andThen_returns [OF scheduleRule_returns])
  next
    case False
    with Cons.IH [OF Cons.prems(1,2) rest] show ?thesis by simp
  qed
qed

lemma scheduleEach_member:
  assumes "timer_inv s" and "handle_inv s" and "distinct (map rule_id rs)"
    and "r \<in> set rs" and "enabled r"
  shows "liveJobs (snd (scheduleEach e rs s)) (rule_id r)
           = (if schedulable e (trigger r) then 1 else 0)"
  using assms
proof (induction rs arbitrary: s)
  case Nil
  then show ?case by simp
next
  case (Cons r' rs)
  from Cons.prems(3) have dr: "distinct (map rule_id rs)" and nr: "rule_id r' \<notin> rule_id ` set rs"
    by simp_all
  show ?case
  proof (cases "r = r'")
    case True
    let ?s1 = "snd (scheduleRule e r s)"
    have t: "timer_inv ?s1" using Cons.prems(1) by (rule timer_inv_schedule)
    have h: "handle_inv ?s1" using Cons.prems(2) by (rule handle_inv_schedule)
    from nr True have "\<forall>x \<in> set rs. enabled x \<longrightarrow> rule_id x \<noteq> rule_id r"
      by (metis image_eqI)
    with t h have "liveJobs (snd (scheduleEach e rs ?s1)) (rule_id r) = liveJobs ?s1 (rule_id r)"
      by (rule scheduleEach_other)
    also have "\<dots> = (if enabled r \<and> schedulable e (trigger r) then 1 else 0)"
      using Cons.prems(1) by (rule liveJobs_schedule)
    finally show ?thesis using True Cons.prems(5)
      by (simp add: andThen_returns [OF scheduleRule_returns])
  next
    case False
    with Cons.prems(4) have mem: "r \<in> set rs" by simp
    show ?thesis
    proof (cases "enabled r'")
      case True
      let ?s1 = "snd (scheduleRule e r' s)"
      have t: "timer_inv ?s1" using Cons.prems(1) by (rule timer_inv_schedule)
      have h: "handle_inv ?s1" using Cons.prems(2) by (rule handle_inv_schedule)
      from Cons.IH [OF t h dr mem Cons.prems(5)] True show ?thesis
        by (simp add: andThen_returns [OF scheduleRule_returns])
    next
      case dis: False
      from Cons.IH [OF Cons.prems(1,2) dr mem Cons.prems(5)] dis show ?thesis by simp
    qed
  qed
qed

lemma map_ids:
  assumes "\<forall>kr \<in> set al. rule_id (snd kr) = fst kr"
  shows "map rule_id (map snd al) = map fst al"
  using assms by (induction al) simp_all

lemma in_step_start:
  assumes inv: "sched_inv s" and safe: "load_safe s" and cv: "cron_schedule e = cron_schedule e0"
  shows "in_step e0 (snd (start e s))"
proof (rule in_stepI)
  let ?l = "loadRules s"
  let ?rs = "map snd (rules ?l)"
  let ?s' = "snd (start e s)"
  have s': "?s' = snd (scheduleEach e ?rs ?l)" by (simp add: start_def scheduleAllRules_def)
  have l: "sched_inv ?l" using inv by (rule sched_inv_loadRules)
  note p = sched_inv_parts [OF l]
  from p(3) have d: "distinct (map fst (rules ?l))"
    and ids: "\<forall>kr \<in> set (rules ?l). rule_id (snd kr) = fst kr"
    unfolding rule_inv_def by blast+
  have rl: "rules ?s' = rules ?l" by (simp add: s')
  show "distinct (map fst (rules ?s'))" using d by (simp add: rl)
  have "map rule_id ?rs = map fst (rules ?l)" using ids by (rule map_ids)
  with d have dr: "distinct (map rule_id ?rs)" by (simp only:)
  fix k r assume "map_of (rules ?s') k = Some r"
  then have m: "map_of (rules ?l) k = Some r" by (simp add: rl)
  then have kr: "(k, r) \<in> set (rules ?l)" by (rule map_of_SomeD)
  then have mem: "r \<in> set ?rs" by force
  have id: "rule_id r = k" using p(3) m by (rule rule_inv_ids)
  have sc: "schedulable e (trigger r) = schedulable e0 (trigger r)"
    using cv by (rule schedulable_cong)
  show "liveJobs ?s' k = (if enabled r \<and> schedulable e0 (trigger r) then 1 else 0)"
  proof (cases "enabled r")
    case True
    from scheduleEach_member [OF p(1,2) dr mem True, of e] id sc True show ?thesis
      by (simp add: s')
  next
    case False
    have "\<forall>x \<in> set ?rs. enabled x \<longrightarrow> rule_id x \<noteq> k"
    proof (intro ballI impI)
      fix x assume x: "x \<in> set ?rs" and en: "enabled x"
      show "rule_id x \<noteq> k"
      proof
        assume "rule_id x = k"
        with stored_rules [OF p(3) x] m have "x = r" by simp
        with en False show False by simp
      qed
    qed
    with p(1,2) have "liveJobs (snd (scheduleEach e ?rs ?l)) k = liveJobs ?l k"
      by (rule scheduleEach_other)
    moreover have "liveJobs ?l k = liveJobs s k" by (simp add: liveJobs_def)
    moreover from safe kr False have "liveJobs s k = 0" unfolding load_safe_def by force
    ultimately show ?thesis using False by (simp add: s')
  qed
qed

lemma running_reachable: "running e0 s \<Longrightarrow> reachable s"
  by (induction rule: running.induct) (auto intro: reachable.intros)

lemma running_in_step: "running e0 s \<Longrightarrow> in_step e0 s"
proof (induction rule: running.induct)
  case (started s e)
  from started(1) have "sched_inv s" by (rule reachable_sched_inv)
  then show ?case using started(2,3) by (rule in_step_start)
next
  case (added s e newId now ruleData)
  from added(1) have "sched_inv s" by (intro reachable_sched_inv running_reachable)
  then show ?case using added(4,2,3) by (rule in_step_addRule)
next
  case (removed s e ruleId)
  from removed(1) have "sched_inv s" by (intro reachable_sched_inv running_reachable)
  then show ?case using removed(2) by (rule in_step_removeRule)
next
  case (toggled s e ruleId)
  from toggled(1) have "sched_inv s" by (intro reachable_sched_inv running_reachable)
  then show ?case using toggled(3,2) by (rule in_step_toggleRule)
next
  case (ran s e now ruleId)
  from ran(1) have "sched_inv s" by (intro reachable_sched_inv running_reachable)
  then show ?case using ran(2) by (rule in_step_runRule)
next
  case (fired s t e now)
  from fired(1) have "sched_inv s" by (intro reachable_sched_inv running_reachable)
  then show ?case using fired(3) by (rule in_step_runRule)
qed

section \<open>Entering the running state\<close>

text \<open>
  An engine without live timers can be started, and so can an engine in step whose
  store holds the current rules.
\<close>

lemma load_safe_idle: "timers s = [] \<Longrightarrow> load_safe s"
  by (simp add: load_safe_def liveJobs_def)

lemma fold_update_same:
  "(\<forall>r \<in> set rs. map_of al (rule_id r) = Some r)
    \<Longrightarrow> fold (\<lambda>r al. AList.update (rule_id r) r al) rs al = al"
  by (induction rs) (simp_all add: update_triv)

lemma loadRules_current:
  assumes ri: "rule_inv s" and d: "disk s = Stored (map snd (rules s))"
  shows "rules (loadRules s) = rules s"
proof -
  have "\<forall>r \<in> set (map snd (rules s)). map_of (rules s) (rule_id r) = Some r"
  proof
    fix r assume "r \<in> set (map snd (rules s))"
    then obtain kr where kr: "kr \<in> set (rules s)" and r: "r = snd kr" by auto
    from ri kr have "rule_id (snd kr) = fst kr" unfolding rule_inv_def by blast
    moreover from ri have "distinct (map fst (rules s))" unfolding rule_inv_def by blast
    then have "map_of (rules s) (fst kr) = Some (snd kr)" using kr by simp
    ultimately show "map_of (rules s) (rule_id r) = Some r" using r by simp
  qed
  then have "fold (\<lambda>r al. AList.update (rule_id r) r al) (map snd (rules s)) (rules s) = rules s"
    by (rule fold_update_same)
  then show ?thesis using d by (simp add: loadRules_def)
qed

lemma load_safe_current:
  assumes ri: "rule_inv s" and st: "in_step e0 s" and d: "disk s = Stored (map snd (rules s))"
  shows "load_safe s"
proof -
  have eq: "rules (loadRules s) = rules s" using ri d by (rule loadRules_current)
  show ?thesis unfolding load_safe_def eq
  proof (intro ballI impI)
    fix kr assume kr: "kr \<in> set (rules s)" and off: "\<not> enabled (snd kr)"
    from st kr have "liveJobs s (fst kr)
        = (if enabled (snd kr) \<and> schedulable e0 (trigger (snd kr)) then 1 else 0)"
      unfolding in_step_def by (rule bspec)
    with off show "liveJobs s (fst kr) = 0" by simp
  qed
qed

lemma running_first_start: "running e (snd (start e (newEngine slack stored)))"
proof -
  have "load_safe (newEngine slack stored)"
    by (rule load_safe_idle) (simp add: newEngine_def)
  with reachable.created show ?thesis by (rule running.started) (rule refl)
qed

lemma running_after_stop:
  assumes "reachable s"
  shows "running e (snd (start e (snd (stop s))))"
proof -
  from assms have "sched_inv s" by (rule reachable_sched_inv)
  then have "timer_inv s" by (simp add: sched_inv_def)
  then have "timers (snd (stop s)) = []" by (rule stop_timers)
  then have "load_safe (snd (stop s))" by (rule load_safe_idle)
  with reachable.stopped [OF assms] show ?thesis by (rule running.started) (rule refl)
qed

lemma running_restart:
  assumes r: "running e0 s" and c: "cron_schedule e = cron_schedule e0"
    and d: "disk s = Stored (map snd (rules s))"
  shows "running e0 (snd (start e s))"
proof -
  from r have re: "reachable s" by (rule running_reachable)
  then have "sched_inv s" by (rule reachable_sched_inv)
  then have ri: "rule_inv s" by (simp add: sched_inv_def)
  from r have "in_step e0 s" by (rule running_in_step)
  with ri have "load_safe s" using d by (rule load_safe_current)
  with re show ?thesis using c by (rule running.started)
qed

lemma running_count:
  assumes r: "running e0 s"
  shows "case map_of (rules s) rid of
           None \<Rightarrow> liveJobs s rid = 0
         | Some r \<Rightarrow> liveJobs s rid
             = (if enabled r \<and> schedulable e0 (trigger r) then 1 else 0)"
proof (cases "map_of (rules s) rid")
  case None
  from r have "sched_inv s" by (intro reachable_sched_inv running_reachable)
  then have "liveJobs s rid = 0" using None by (rule no_owner_no_job)
  with None show ?thesis by simp
next
  case (Some r')
  then have "(rid, r') \<in> set (rules s)" by (rule map_of_SomeD)
  with running_in_step [OF r]
  have "liveJobs s (fst (rid, r'))
      = (if enabled (snd (rid, r')) \<and> schedulable e0 (trigger (snd (rid, r'))) then 1 else 0)"
    unfolding in_step_def by (rule bspec)
  with Some show ?thesis by simp
qed

lemma ex_started_eq: "ex_started = newEngine True Missing"
  by (simp add: ex_started_def start_def scheduleAllRules_def loadRules_def newEngine_def)

lemma running_ex_started: "running ex_env ex_started"
  unfolding ex_started_def by (rule running_first_start)

lemma running_ex_running: "running ex_env ex_running"
  unfolding ex_running_def
  by (rule running.added [OF running_ex_started refl]) (simp add: ex_started_eq newEngine_def)

lemma running_ex_inert: "running ex_env ex_inert"
  unfolding ex_inert_def
  by (rule running.added [OF running_ex_started refl]) (simp add: ex_started_eq newEngine_def)

lemma reachable_ex_stopped: "reachable ex_stopped"
  unfolding ex_stopped_def by (intro reachable.stopped running_reachable [OF running_ex_running])

lemma reachable_ex_restarted: "reachable ex_restarted"
  unfolding ex_restarted_def ex_unsaved_def ex_idle_def
  by (intro reachable.started reachable.toggled reachable.added
      running_reachable [OF running_ex_started])

lemma ex_running_jobs: "liveJobs ex_running ''r1'' = 1"
  by (simp add: ex_running_def ex_started_eq addRule_def saveRules_def scheduleRule_def
      unscheduleRule_def liveJobs_def Let_def ex_defs)

lemma ex_running_rule: "map_of (rules ex_running) ''r1'' = Some (ex_rule\<lparr>createdAt := 5\<rparr>)"
  by (simp add: ex_running_def update_conv' ex_rule_def)

lemma ex_rule_schedulable:
  "enabled (ex_rule\<lparr>createdAt := 5\<rparr>)" "schedulable ex_env (trigger (ex_rule\<lparr>createdAt := 5\<rparr>))"
  "enabled ex_rule" "schedulable ex_env (trigger ex_rule)" "rule_id ex_rule = ''r1''"
  by (simp_all add: schedulable_def ex_defs)

lemma ex_idle_eq:
  "ex_idle = (newEngine True Missing)
     \<lparr>rules := [(''r1'', ex_rule_off\<lparr>createdAt := 5\<rparr>)],
      disk := Stored [ex_rule_off\<lparr>createdAt := 5\<rparr>]\<rparr>"
  by (simp add: ex_idle_def ex_started_eq addRule_def saveRules_def Let_def newEngine_def
      ex_rule_off_def ex_defs)

section \<open>Live jobs per rule (C7)\<close>




section \<open>Toggling twice (C8)\<close>




end
